theory Spec2Isabelle
  imports Main "HOL-Library.Sublist" "HOL-Library.List_Lexorder" "HOL-Library.Char_ord"
begin

section \<open>Python string primitives used by the agents\<close>

text \<open>
  A Python \<open>str\<close> is modelled as a \<open>string\<close>; one \<open>char\<close> stands for one code point of
  the 8-bit (Latin-1) range, on which \<open>str.lower\<close> maps one code point to one code point.
\<close>

definition lower_char :: "char \<Rightarrow> char" where
  "lower_char c =
     (let n = (of_char c :: nat)
      in if (65 \<le> n \<and> n \<le> 90) \<or> (192 \<le> n \<and> n \<le> 222 \<and> n \<noteq> 215)
         then char_of (n + 32) else c)"

definition lower :: "string \<Rightarrow> string" where
  "lower s = map lower_char s"

text \<open>\<open>s.find(pat)\<close>: the offset of the leftmost occurrence, \<open>None\<close> for Python's \<open>-1\<close>.\<close>

fun find_sub :: "'a list \<Rightarrow> 'a list \<Rightarrow> nat option" where
  "find_sub pat [] = (if pat = [] then Some 0 else None)"
| "find_sub pat (x # xs) =
     (if prefix pat (x # xs) then Some 0 else map_option Suc (find_sub pat xs))"

text \<open>\<open>s.replace('\n', '<br>')\<close>.\<close>

definition replace_nl :: "string \<Rightarrow> string" where
  "replace_nl s = concat (map (\<lambda>c. if c = CHR 0x0A then ''<br>'' else [c]) s)"

text \<open>
  \<open>str.upper\<close> on the same range. Three code points have an uppercase form outside it
  (U+00B5, U+00DF, U+00FF); the model leaves them as they are.
\<close>

definition upper_char :: "char \<Rightarrow> char" where
  "upper_char c =
     (let n = (of_char c :: nat)
      in if (97 \<le> n \<and> n \<le> 122) \<or> (224 \<le> n \<and> n \<le> 254 \<and> n \<noteq> 247)
         then char_of (n - 32) else c)"

definition upper :: "string \<Rightarrow> string" where
  "upper s = map upper_char s"

text \<open>\<open>str.strip()\<close>: leading and trailing whitespace (\<open>str.isspace\<close>) is removed.\<close>

definition isspace :: "char \<Rightarrow> bool" where
  "isspace c =
     (let n = (of_char c :: nat)
      in (9 \<le> n \<and> n \<le> 13) \<or> (28 \<le> n \<and> n \<le> 32) \<or> n = 133 \<or> n = 160)"

definition strip :: "string \<Rightarrow> string" where
  "strip s = rev (dropWhile isspace (rev (dropWhile isspace s)))"

text \<open>
  Exceptions are values. \<open>Error\<close> stands for any exception raised by a collaborator (the
  model service, the store, the delivery channel); \<open>str_exc\<close> is Python's \<open>str(e)\<close>.
\<close>

datatype py_exception = KeyError string | ValueError string | Error string

fun str_exc :: "py_exception \<Rightarrow> string" where
  "str_exc (KeyError k) = [CHR 0x27] @ k @ [CHR 0x27]"
| "str_exc (ValueError m) = m"
| "str_exc (Error m) = m"

section \<open>The streaming tag filter of \<open>stream_async\<close>\<close>

definition open_tag :: string where
  "open_tag = ''<thinking>''"

definition close_tag :: string where
  "close_tag = ''</thinking>''"

text \<open>
  The loop \<open>for i in range(min(n, len(buffer)), 0, -1): if buffer[-i:].lower() == tag[:i]\<close>:
  called with \<open>i = min n (length buffer)\<close>, it returns the first (largest) \<open>i\<close> that matches,
  \<open>None\<close> when the loop ends without \<open>break\<close>.
\<close>

fun partial_match :: "string \<Rightarrow> string \<Rightarrow> nat \<Rightarrow> nat option" where
  "partial_match tag buffer 0 = None"
| "partial_match tag buffer (Suc i) =
     (if lower (drop (length buffer - Suc i) buffer) = take (Suc i) tag then Some (Suc i)
      else partial_match tag buffer i)"

text \<open>
  The \<open>while True\<close> loop that processes the buffer after a fragment was appended. The first
  argument is what is applied to a piece of text when it is yielded (nothing in the general and
  curriculum agents, \<open>replace('\n', '<br>')\<close> in the quizzer agent). The result is the list of
  yielded fragments, the buffer and \<open>inside_thinking\<close> when the loop breaks.
\<close>

function process_buffer ::
  "(string \<Rightarrow> string) \<Rightarrow> string \<Rightarrow> bool \<Rightarrow> string list \<times> string \<times> bool" where
  "process_buffer tr buffer inside_thinking =
     (if \<not> inside_thinking then
        (case find_sub open_tag (lower buffer) of
           Some start \<Rightarrow>
             (let (ys, st) = process_buffer tr (drop (start + 10) buffer) True
              in ((if start > 0 then [tr (take start buffer)] else []) @ ys, st))
         | None \<Rightarrow>
             (let safe_end =
                    (case partial_match open_tag buffer (min 10 (length buffer)) of
                       Some i \<Rightarrow> length buffer - i
                     | None \<Rightarrow> length buffer)
              in if safe_end > 0
                 then ([tr (take safe_end buffer)], drop safe_end buffer, False)
                 else ([], buffer, False)))
      else
        (case find_sub close_tag (lower buffer) of
           Some end \<Rightarrow> process_buffer tr (drop (end + 11) buffer) False
         | None \<Rightarrow>
             (if length buffer > 11 then
                (case partial_match close_tag buffer (min 11 (length buffer)) of
                   Some i \<Rightarrow> ([], drop (length buffer - i) buffer, True)
                 | None \<Rightarrow> ([], drop (length buffer - 11) buffer, True))
              else ([], buffer, True))))"
  by pat_completeness auto
termination
proof (relation "measure (\<lambda>(tr, buffer, inside). length buffer)")
  show "wf (measure (\<lambda>(tr, buffer, inside). length buffer))" by simp
next
  fix tr :: "string \<Rightarrow> string" and buffer inside_thinking start
  assume "find_sub open_tag (lower buffer) = Some start"
  then have "buffer \<noteq> []" by (auto simp: lower_def open_tag_def)
  then show "((tr, drop (start + 10) buffer, True), tr, buffer, inside_thinking)
       \<in> measure (\<lambda>(tr, buffer, inside). length buffer)" by simp
next
  fix tr :: "string \<Rightarrow> string" and buffer inside_thinking pos
  assume "find_sub close_tag (lower buffer) = Some pos"
  then have "buffer \<noteq> []" by (auto simp: lower_def close_tag_def)
  then show "((tr, drop (pos + 11) buffer, False), tr, buffer, inside_thinking)
       \<in> measure (\<lambda>(tr, buffer, inside). length buffer)" by simp
qed

declare process_buffer.simps [simp del]

text \<open>
  A chunk of the model stream is a dictionary; only its \<open>"data"\<close> entry is read, and a chunk
  without one is skipped. A chunk is modelled by that entry.
\<close>

type_synonym chunk = "string option"

text \<open>The body of \<open>async for chunk in ...\<close>, on the state \<open>(buffer, inside_thinking)\<close>.\<close>

definition feed ::
  "(string \<Rightarrow> string) \<Rightarrow> string \<times> bool \<Rightarrow> chunk \<Rightarrow> string list \<times> string \<times> bool" where
  "feed tr st chunk =
     (case chunk of
        None \<Rightarrow> ([], st)
      | Some data \<Rightarrow> process_buffer tr (fst st @ data) (snd st))"

fun feed_all ::
  "(string \<Rightarrow> string) \<Rightarrow> string \<times> bool \<Rightarrow> chunk list \<Rightarrow> string list \<times> string \<times> bool" where
  "feed_all tr st [] = ([], st)"
| "feed_all tr st (chunk # chunks) =
     (let (ys, st') = feed tr st chunk;
          (zs, st'') = feed_all tr st' chunks
      in (ys @ zs, st''))"

text \<open>
  The whole generator: the fragments it yields, in order, for a finite model stream. After the
  stream ends the buffer is flushed \<open>if buffer and not inside_thinking\<close>.
\<close>

definition stream_filter :: "(string \<Rightarrow> string) \<Rightarrow> chunk list \<Rightarrow> string list" where
  "stream_filter tr chunks =
     (let (ys, buffer, inside_thinking) = feed_all tr ([], False) chunks
      in ys @ (if buffer \<noteq> [] \<and> \<not> inside_thinking then [tr buffer] else []))"

text \<open>
  The three \<open>stream_async\<close> generators carry the same filter; the quizzer agent's copy
  converts newlines in everything it yields.
\<close>

definition general_agent_stream_async :: "chunk list \<Rightarrow> string list" where
  "general_agent_stream_async = stream_filter (\<lambda>s. s)"

definition curriculum_agent_stream_async :: "chunk list \<Rightarrow> string list" where
  "curriculum_agent_stream_async = stream_filter (\<lambda>s. s)"

definition quizzer_agent_stream_async :: "chunk list \<Rightarrow> string list" where
  "quizzer_agent_stream_async = stream_filter replace_nl"

text \<open>The text the model stream carries: the concatenation of the \<open>"data"\<close> entries.\<close>

fun stream_text :: "chunk list \<Rightarrow> string" where
  "stream_text [] = []"
| "stream_text (None # chunks) = stream_text chunks"
| "stream_text (Some data # chunks) = data @ stream_text chunks"

text \<open>The state in which the filter waits after the given chunks.\<close>

definition pending :: "(string \<Rightarrow> string) \<Rightarrow> chunk list \<Rightarrow> string \<times> bool" where
  "pending tr chunks = snd (feed_all tr ([], False) chunks)"

text \<open>
  The filter applied to an unfragmented text, used to state what the generators compute:
  outside a span the text up to the first open tag passes and the tag is dropped; inside, the
  text up to and including the first close tag is dropped, or all of it when there is none.
\<close>

function strip_spans :: "bool \<Rightarrow> string \<Rightarrow> string" where
  "strip_spans inside s =
     (if \<not> inside then
        (case find_sub open_tag (lower s) of
           None \<Rightarrow> s
         | Some k \<Rightarrow> take k s @ strip_spans True (drop (k + 10) s))
      else
        (case find_sub close_tag (lower s) of
           None \<Rightarrow> []
         | Some j \<Rightarrow> strip_spans False (drop (j + 11) s)))"
  by pat_completeness auto
termination
proof (relation "measure (\<lambda>(inside, s). length s)")
  show "wf (measure (\<lambda>(inside, s). length s))" by simp
next
  fix inside :: bool and s k
  assume "find_sub open_tag (lower s) = Some k"
  then have "s \<noteq> []" by (auto simp: lower_def open_tag_def)
  then show "((True, drop (k + 10) s), inside, s) \<in> measure (\<lambda>(inside, s). length s)" by simp
next
  fix inside :: bool and s j
  assume "find_sub close_tag (lower s) = Some j"
  then have "s \<noteq> []" by (auto simp: lower_def close_tag_def)
  then show "((False, drop (j + 11) s), inside, s) \<in> measure (\<lambda>(inside, s). length s)" by simp
qed

declare strip_spans.simps [simp del]

text \<open>What the proofs need of the function applied to yielded text: it respects concatenation.\<close>

definition yield_hom :: "(string \<Rightarrow> string) \<Rightarrow> bool" where
  "yield_hom tr \<longleftrightarrow> tr [] = [] \<and> (\<forall>a b. tr (a @ b) = tr a @ tr b)"

text \<open>The state in which the loop breaks: no complete tag is left in the buffer.\<close>

definition quiescent :: "string \<times> bool \<Rightarrow> bool" where
  "quiescent st \<longleftrightarrow>
     (if snd st then find_sub close_tag (lower (fst st)) = None \<and> length (fst st) \<le> 11
      else find_sub open_tag (lower (fst st)) = None \<and> length (fst st) \<le> 9)"

text \<open>
  The simulation relation of one run of the loop: what was yielded, followed by what the new
  state makes of any further input, is what the old state makes of its buffer and that input.
\<close>

definition refines ::
  "(string \<Rightarrow> string) \<Rightarrow> string list \<Rightarrow> string \<times> bool \<Rightarrow> string \<times> bool \<Rightarrow> bool" where
  "refines tr ys st' st \<longleftrightarrow>
     (\<forall>r. concat ys @ tr (strip_spans (snd st') (fst st' @ r)) =
          tr (strip_spans (snd st) (fst st @ r)))"

section \<open>The quiz session engine of the quizzer agent\<close>

text \<open>
  The two DynamoDB tables of \<open>quizzer_agent.py\<close>. An attribute that an item may lack is an
  option. Timestamps (\<open>created_at\<close>, \<open>answered_at\<close>, \<open>updated_at\<close>) and the chat history of
  a session are not read by the operations below and are left out; calls to the store are taken
  to succeed.
\<close>

record question_item =
  question :: "string option"
  options :: "(string \<rightharpoonup> string) option"
  correct :: "string option"
  explanation :: "string option"
  q_topic :: "string option"
  q_grade :: "int option"
  user_answer :: "string option"
  score_status :: "string option"

record session_item =
  state :: "string option"
  current_question :: "int option"
  total_questions :: "int option"
  score :: "int option"
  topic :: "string option"
  grade :: "int option"

record quiz_db =
  quiz_table :: "string \<times> int \<rightharpoonup> question_item"
  session_table :: "string \<rightharpoonup> session_item"

text \<open>\<open>update_item\<close> creates the item when the key is new: it then has the key only.\<close>

definition new_question_item :: question_item where
  "new_question_item =
     \<lparr>question = None, options = None, correct = None, explanation = None, q_topic = None,
      q_grade = None, user_answer = None, score_status = None\<rparr>"

definition new_session_item :: session_item where
  "new_session_item =
     \<lparr>state = None, current_question = None, total_questions = None, score = None,
      topic = None, grade = None\<rparr>"

definition db_update_question_answer :: "quiz_db \<Rightarrow> string \<Rightarrow> int \<Rightarrow> string \<Rightarrow> bool \<Rightarrow> quiz_db" where
  "db_update_question_answer db session_id q_index answer is_correct =
     (let status = (if is_correct then ''correct'' else ''wrong'');
          item = (case quiz_table db (session_id, q_index) of
                    None \<Rightarrow> new_question_item | Some q \<Rightarrow> q)
      in db\<lparr>quiz_table := (quiz_table db)((session_id, q_index) \<mapsto>
               item\<lparr>user_answer := Some (upper answer), score_status := Some status\<rparr>)\<rparr>)"

text \<open>The dictionary \<open>db_get_session\<close> returns: the error entry, or the session data.\<close>

record session_data =
  sd_state :: string
  sd_current_question :: int
  sd_total_questions :: int
  sd_score :: int
  sd_topic :: string
  sd_grade :: int

datatype session_result = Session_error string | Session session_data

definition get_or :: "'a option \<Rightarrow> 'a \<Rightarrow> 'a" where
  "get_or v d = (case v of None \<Rightarrow> d | Some x \<Rightarrow> x)"

definition db_get_session :: "quiz_db \<Rightarrow> string \<Rightarrow> session_result" where
  "db_get_session db session_id =
     (case session_table db session_id of
        None \<Rightarrow> Session_error ''Session not found''
      | Some session \<Rightarrow>
          Session \<lparr>sd_state = get_or (state session) [],
                   sd_current_question = get_or (current_question session) 0,
                   sd_total_questions = get_or (total_questions session) 0,
                   sd_score = get_or (score session) 0,
                   sd_topic = get_or (topic session) [],
                   sd_grade = get_or (grade session) 0\<rparr>)"

definition db_update_session_progress ::
  "quiz_db \<Rightarrow> string \<Rightarrow> int option \<Rightarrow> int option \<Rightarrow> string option \<Rightarrow> quiz_db" where
  "db_update_session_progress db session_id new_score new_current new_state =
     (let item0 = (case session_table db session_id of
                     None \<Rightarrow> new_session_item | Some s \<Rightarrow> s);
          item1 = (case new_score of None \<Rightarrow> item0 | Some sc \<Rightarrow> item0\<lparr>score := Some sc\<rparr>);
          item2 = (case new_current of
                     None \<Rightarrow> item1 | Some cq \<Rightarrow> item1\<lparr>current_question := Some cq\<rparr>);
          item3 = (case new_state of None \<Rightarrow> item2 | Some st \<Rightarrow> item2\<lparr>state := Some st\<rparr>)
      in db\<lparr>session_table := (session_table db)(session_id \<mapsto> item3)\<rparr>)"

record answer_result =
  is_correct :: bool
  r_user_answer :: string
  r_correct_answer :: string
  user_choice_text :: string
  correct_choice_text :: string

text \<open>
  \<open>evaluate_answer\<close>. The arguments are those of the tool (\<open>question\<close> is not used by its
  body). Indexing the error dictionary with \<open>"score"\<close> raises \<open>KeyError\<close>; by then the
  question has been updated.
\<close>

definition evaluate_answer ::
  "quiz_db \<Rightarrow> string \<Rightarrow> int \<Rightarrow> string \<Rightarrow> (string \<rightharpoonup> string) \<Rightarrow> string \<Rightarrow> string
     \<Rightarrow> quiz_db \<times> (py_exception + answer_result)" where
  "evaluate_answer db session_id q_index question_text opts correct_answer answer =
     (let user_ans_normalized = strip (upper answer);
          correct_ans_normalized = strip (upper correct_answer);
          db1 = db_update_question_answer db session_id q_index answer
                  (user_ans_normalized = correct_ans_normalized)
      in case db_get_session db1 session_id of
           Session_error err \<Rightarrow> (db1, Inl (KeyError ''score''))
         | Session session_data \<Rightarrow>
             (let new_score = sd_score session_data +
                    (if user_ans_normalized = correct_ans_normalized then 1 else 0);
                  new_question = sd_current_question session_data + 1;
                  new_state = (if new_question \<ge> sd_total_questions session_data
                               then ''completed'' else ''in_progress'');
                  db2 = db_update_session_progress db1 session_id
                          (Some new_score) (Some new_question) (Some new_state)
              in (db2, Inr \<lparr>is_correct = (user_ans_normalized = correct_ans_normalized),
                            r_user_answer = user_ans_normalized,
                            r_correct_answer = correct_ans_normalized,
                            user_choice_text = get_or (opts user_ans_normalized) ''Invalid'',
                            correct_choice_text = get_or (opts correct_ans_normalized) []\<rparr>)))"

section \<open>The store and the delivery channel\<close>

text \<open>
  The DynamoDB table behind both repositories (\<open>CHAT_TABLE\<close>) holds items keyed by \<open>PK\<close> and
  \<open>SK\<close>; the other fields are the attributes that \<open>write\<close> may set, absent ones being
  \<open>None\<close>. A JSON object whose values are strings is an association list.
\<close>

record ddb_item =
  PK :: string
  SK :: string
  it_user_id :: "string option"
  it_message :: "string option"
  it_role :: "string option"
  it_session_id :: "string option"
  it_file_name :: "string option"
  it_s3_file_name :: "string option"
  it_file_type :: "string option"
  it_title :: "string option"
  it_session_summary :: "string option"
  it_message_count :: "int option"
  it_is_deleted :: "bool option"
  it_has_ended :: "bool option"
  it_message_count_summarized :: "int option"

type_synonym payload = "(string \<times> string) list"

text \<open>
  The calls made to the collaborators are logged in order, each with whether it succeeded:
  \<open>post_to_connection\<close> (connection id and data), \<open>put_item\<close> and \<open>query\<close> (hash key).
  Whether the \<open>n\<close>-th call of a run raises is decided by a fault plan.
\<close>

datatype effect = Post string payload bool | Put ddb_item bool | Query string bool

record world =
  table :: "ddb_item list"
  trace :: "effect list"

type_synonym faults = "nat \<Rightarrow> py_exception option"

definition post_to_connection ::
  "faults \<Rightarrow> world \<Rightarrow> string \<Rightarrow> payload \<Rightarrow> world \<times> (py_exception + unit)" where
  "post_to_connection fp w connection_id data =
     (case fp (length (trace w)) of
        None \<Rightarrow> (w\<lparr>trace := trace w @ [Post connection_id data True]\<rparr>, Inr ())
      | Some e \<Rightarrow> (w\<lparr>trace := trace w @ [Post connection_id data False]\<rparr>, Inl e))"

definition put_item :: "faults \<Rightarrow> world \<Rightarrow> ddb_item \<Rightarrow> world \<times> (py_exception + unit)" where
  "put_item fp w item =
     (case fp (length (trace w)) of
        None \<Rightarrow>
          (w\<lparr>table := filter (\<lambda>j. \<not> (PK j = PK item \<and> SK j = SK item)) (table w) @ [item],
             trace := trace w @ [Put item True]\<rparr>, Inr ())
      | Some e \<Rightarrow> (w\<lparr>trace := trace w @ [Put item False]\<rparr>, Inl e))"

text \<open>
  The query \<open>PK = :pk\<close>: the items of that hash key in the order of their sort key, reversed
  when \<open>ScanIndexForward\<close> is false, cut to \<open>Limit\<close> when one is given (\<open>if limit:\<close>).
\<close>

definition ddb_query ::
  "faults \<Rightarrow> world \<Rightarrow> string \<Rightarrow> bool \<Rightarrow> nat option
     \<Rightarrow> world \<times> (py_exception + ddb_item list)" where
  "ddb_query fp w hash_key scan_index_forward limit =
     (case fp (length (trace w)) of
        Some e \<Rightarrow> (w\<lparr>trace := trace w @ [Query hash_key False]\<rparr>, Inl e)
      | None \<Rightarrow>
          (let sorted_items = sort_key SK (filter (\<lambda>i. PK i = hash_key) (table w));
               ordered = (if scan_index_forward then sorted_items else rev sorted_items);
               page = (case limit of
                         None \<Rightarrow> ordered
                       | Some n \<Rightarrow> if n > 0 then take n ordered else ordered)
           in (w\<lparr>trace := trace w @ [Query hash_key True]\<rparr>, Inr page)))"

section \<open>Models and repositories\<close>

text \<open>
  The classes \<open>UserSession\<close> and \<open>Chat\<close>. Both have fields \<open>user_id\<close>, \<open>session_id\<close> and
  \<open>timestamp\<close>; the records tell them apart by a prefix.
\<close>

record UserSession =
  us_user_id :: string
  us_timestamp :: string
  us_session_id :: string
  title :: string
  session_summary :: string
  is_deleted :: bool
  has_ended :: bool
  message_count :: int
  message_count_summarized :: int

record Chat =
  chat_session_id :: string
  chat_timestamp :: string
  role :: string
  message :: string
  chat_user_id :: string
  file_name :: "string option"
  s3_file_name :: "string option"
  file_type :: "string option"
  chat_topic :: "string option"

datatype model_object = Chat_object Chat | Session_object UserSession

text \<open>An optional attribute is written only when the field is truthy.\<close>

definition truthy :: "string option \<Rightarrow> string option" where
  "truthy v = (case v of None \<Rightarrow> None | Some s \<Rightarrow> if s = [] then None else Some s)"

text \<open>
  The item \<open>DynamodbFactory.write\<close> builds. A \<open>UserSession\<close> has no \<open>message\<close> or \<open>role\<close>
  (\<open>getattr\<close> gives the empty string) and no file fields; a \<open>Chat\<close> has no title, summary,
  counters or flags.
\<close>

fun write_item :: "model_object \<Rightarrow> ddb_item" where
  "write_item (Chat_object c) =
     \<lparr>PK = chat_session_id c, SK = chat_timestamp c,
      it_user_id = Some (chat_user_id c), it_message = Some (message c),
      it_role = Some (role c), it_session_id = Some (chat_session_id c),
      it_file_name = truthy (file_name c), it_s3_file_name = truthy (s3_file_name c),
      it_file_type = truthy (file_type c), it_title = None, it_session_summary = None,
      it_message_count = None, it_is_deleted = None, it_has_ended = None,
      it_message_count_summarized = None\<rparr>"
| "write_item (Session_object u) =
     \<lparr>PK = us_session_id u, SK = us_timestamp u,
      it_user_id = Some (us_user_id u), it_message = Some [],
      it_role = Some [], it_session_id = Some (us_session_id u),
      it_file_name = None, it_s3_file_name = None, it_file_type = None,
      it_title = Some (title u), it_session_summary = truthy (Some (session_summary u)),
      it_message_count = Some (message_count u), it_is_deleted = Some (is_deleted u),
      it_has_ended = Some (has_ended u),
      it_message_count_summarized = Some (message_count_summarized u)\<rparr>"

text \<open>\<open>DynamodbFactory.write\<close> (the name \<open>write\<close> is taken in Isabelle).\<close>

definition write_object :: "faults \<Rightarrow> world \<Rightarrow> model_object \<Rightarrow> world \<times> (py_exception + unit)" where
  "write_object fp w object_data = put_item fp w (write_item object_data)"

text \<open>
  \<open>UserSession(**data)\<close> on the dictionary \<open>query\<close> makes of an item: \<open>session_id\<close> is
  replaced by \<open>PK\<close> when the item has one, otherwise \<open>user_id\<close> is set to \<open>PK\<close>;
  \<open>timestamp\<close> is \<open>SK\<close>. The constructor reads \<open>user_id\<close>, \<open>timestamp\<close>, \<open>session_id\<close>
  and \<open>title\<close> in this order and raises \<open>KeyError\<close> at the first one missing.
\<close>

definition session_from_item :: "ddb_item \<Rightarrow> py_exception + UserSession" where
  "session_from_item i =
     (case (if it_session_id i = None then Some (PK i) else it_user_id i) of
        None \<Rightarrow> Inl (KeyError ''user_id'')
      | Some uid \<Rightarrow>
          (case it_session_id i of
             None \<Rightarrow> Inl (KeyError ''session_id'')
           | Some _ \<Rightarrow>
               (case it_title i of
                  None \<Rightarrow> Inl (KeyError ''title'')
                | Some t \<Rightarrow>
                    Inr \<lparr>us_user_id = uid, us_timestamp = SK i, us_session_id = PK i,
                         title = t,
                         session_summary = get_or (it_session_summary i) [],
                         is_deleted = get_or (it_is_deleted i) False,
                         has_ended = get_or (it_has_ended i) False,
                         message_count = get_or (it_message_count i) 0,
                         message_count_summarized =
                           get_or (it_message_count_summarized i) 0\<rparr>)))"

fun sessions_from_items :: "ddb_item list \<Rightarrow> py_exception + UserSession list" where
  "sessions_from_items [] = Inr []"
| "sessions_from_items (i # items) =
     (case session_from_item i of
        Inl e \<Rightarrow> Inl e
      | Inr u \<Rightarrow>
          (case sessions_from_items items of
             Inl e \<Rightarrow> Inl e
           | Inr us \<Rightarrow> Inr (u # us)))"

text \<open>\<open>UserSessionRepository.query\<close>: the query, then the conversion of its items.\<close>

definition query ::
  "faults \<Rightarrow> world \<Rightarrow> string \<Rightarrow> bool \<Rightarrow> nat option
     \<Rightarrow> world \<times> (py_exception + UserSession list)" where
  "query fp w hash_key scan_index_forward limit =
     (case ddb_query fp w hash_key scan_index_forward limit of
        (w', Inl e) \<Rightarrow> (w', Inl e)
      | (w', Inr items) \<Rightarrow> (w', sessions_from_items items))"

definition get_user_session ::
  "faults \<Rightarrow> world \<Rightarrow> string \<Rightarrow> string \<Rightarrow> world \<times> (py_exception + UserSession option)" where
  "get_user_session fp w user_id session_id =
     (case query fp w session_id True (Some 1) of
        (w', Inl e) \<Rightarrow> (w', Inl e)
      | (w', Inr session_details) \<Rightarrow>
          (w', Inr (case session_details of [] \<Rightarrow> None | d # _ \<Rightarrow> Some d)))"

text \<open>
  \<open>random.choices(population, k=n)\<close> draws \<open>n\<close> positions of the population. The random
  source is a parameter: \<open>rnd i\<close> decides the \<open>i\<close>-th draw.
\<close>

definition random_choices :: "(nat \<Rightarrow> nat) \<Rightarrow> 'a list \<Rightarrow> nat \<Rightarrow> 'a list" where
  "random_choices rnd population n =
     map (\<lambda>i. population ! (rnd i mod length population)) [0..<n]"

definition ascii_letters :: string where
  "ascii_letters = ''abcdefghijklmnopqrstuvwxyzABCDEFGHIJKLMNOPQRSTUVWXYZ''"

definition digits :: string where
  "digits = ''0123456789''"

definition construct_session_id :: "(nat \<Rightarrow> nat) \<Rightarrow> string \<Rightarrow> string" where
  "construct_session_id rnd user_id =
     (let random_part = random_choices rnd (ascii_letters @ digits) 8
      in user_id @ ''-'' @ random_part)"

text \<open>The clock is a parameter: \<open>now\<close> is the formatted current time.\<close>

definition initialize_user_session ::
  "string \<Rightarrow> string \<Rightarrow> string \<Rightarrow> string \<Rightarrow> string \<Rightarrow> UserSession" where
  "initialize_user_session now user_id session_id summary session_title =
     \<lparr>us_user_id = user_id, us_timestamp = now, us_session_id = session_id,
      title = session_title, session_summary = summary, is_deleted = False,
      has_ended = False, message_count = 0, message_count_summarized = 0\<rparr>"

definition initialize_chat_agent :: "string \<Rightarrow> string \<Rightarrow> string \<Rightarrow> string \<Rightarrow> Chat" where
  "initialize_chat_agent now user_id agent_response session_id =
     \<lparr>chat_session_id = session_id, chat_timestamp = now, role = ''assistant'',
      message = agent_response, chat_user_id = user_id, file_name = None,
      s3_file_name = None, file_type = None, chat_topic = None\<rparr>"

text \<open>
  \<open>ChatRepository.push_to_client\<close>: nothing is sent without a configured client
  (\<open>WEBSOCKET_CLIENT\<close>) or a connection id, and a failure to send is caught.
\<close>

definition push_to_client :: "bool \<Rightarrow> faults \<Rightarrow> world \<Rightarrow> string \<Rightarrow> payload \<Rightarrow> world" where
  "push_to_client websocket_client fp w connection_id response =
     (if \<not> websocket_client \<or> connection_id = [] then w
      else fst (post_to_connection fp w connection_id response))"

section \<open>The turn coordinator\<close>

record response =
  statusCode :: int
  body :: payload

text \<open>
  The session handling of \<open>async_handler\<close>. The \<open>session_id\<close> of the request body is an
  option, tested for truth (\<open>if session_id:\<close>). The block either returns a response or goes
  on with the session id and the session.
\<close>

definition session_handling ::
  "bool \<Rightarrow> faults \<Rightarrow> (nat \<Rightarrow> nat) \<Rightarrow> string \<Rightarrow> world \<Rightarrow> string \<Rightarrow> string \<Rightarrow> string option
     \<Rightarrow> world \<times> (response + string \<times> UserSession)" where
  "session_handling websocket_client fp rnd now w connection_id user_id session_id =
     (let failed = (\<lambda>w' sess_exc.
            (push_to_client websocket_client fp w' connection_id
               [(''error'', str_exc sess_exc), (''connectionId'', connection_id)],
             Inl \<lparr>statusCode = 500, body = [(''error'', str_exc sess_exc)]\<rparr>))
      in if session_id \<noteq> None \<and> session_id \<noteq> Some [] then
           (case get_user_session fp w user_id (the session_id) of
              (w1, Inl sess_exc) \<Rightarrow> failed w1 sess_exc
            | (w1, Inr None) \<Rightarrow>
                (push_to_client websocket_client fp w1 connection_id
                   [(''error'', ''Session not found''), (''connectionId'', connection_id)],
                 Inl \<lparr>statusCode = 404, body = [(''error'', ''Session not found'')]\<rparr>)
            | (w1, Inr (Some user_session)) \<Rightarrow> (w1, Inr (the session_id, user_session)))
         else
           (let new_id = construct_session_id rnd user_id;
                user_session = initialize_user_session now user_id new_id [] ''New Chat''
            in case write_object fp w (Session_object user_session) of
                 (w1, Inl sess_exc) \<Rightarrow> failed w1 sess_exc
               | (w1, Inr _) \<Rightarrow> (w1, Inr (new_id, user_session))))"

text \<open>
  What the coordinator sees of \<open>agent_module.stream_async(payload)\<close>: the fragments the
  generator yields and how it ends.
\<close>

datatype stream_end = Finished | Failed py_exception

definition stream_event :: "string \<Rightarrow> string \<Rightarrow> string \<Rightarrow> string \<Rightarrow> payload" where
  "stream_event session_id user_input agent_response type =
     [(''session_id'', session_id), (''user_input'', user_input),
      (''agent_response'', agent_response), (''type'', type)]"

definition error_event :: "py_exception \<Rightarrow> payload" where
  "error_event exc = [(''type'', ''error''), (''error'', str_exc exc)]"

text \<open>
  The loop \<open>async for chunk in agent_module.stream_async(payload)\<close>; the last argument is
  \<open>assistant_chunks\<close>. A fragment is sent and kept \<open>if chunk_text and chunk_text.strip()\<close>.
\<close>

fun stream_loop ::
  "faults \<Rightarrow> string \<Rightarrow> string \<Rightarrow> string \<Rightarrow> world \<Rightarrow> string list \<Rightarrow> stream_end \<Rightarrow> string list
     \<Rightarrow> world \<times> (py_exception + string list)" where
  "stream_loop fp connection_id session_id user_input w [] Finished assistant_chunks =
     (w, Inr assistant_chunks)"
| "stream_loop fp connection_id session_id user_input w [] (Failed exc) assistant_chunks =
     (w, Inl exc)"
| "stream_loop fp connection_id session_id user_input w (chunk_text # rest) ending
     assistant_chunks =
     (if chunk_text \<noteq> [] \<and> strip chunk_text \<noteq> [] then
        (case post_to_connection fp w connection_id
                (stream_event session_id user_input chunk_text ''in_progress'') of
           (w', Inl exc) \<Rightarrow> (w', Inl exc)
         | (w', Inr _) \<Rightarrow>
             stream_loop fp connection_id session_id user_input w' rest ending
               (assistant_chunks @ [chunk_text]))
      else stream_loop fp connection_id session_id user_input w rest ending assistant_chunks)"

text \<open>The body of the \<open>try\<close> of \<open>stream_to_client_and_persist\<close>.\<close>

definition stream_and_persist ::
  "faults \<Rightarrow> string \<Rightarrow> world \<Rightarrow> string list \<times> stream_end \<Rightarrow> string \<Rightarrow> string \<Rightarrow> string
     \<Rightarrow> string \<Rightarrow> world \<times> (py_exception + string)" where
  "stream_and_persist fp now w agent_stream user_input connection_id session_id user_id =
     (case post_to_connection fp w connection_id
             (stream_event session_id user_input [] ''start_of_message'') of
        (w1, Inl exc) \<Rightarrow> (w1, Inl exc)
      | (w1, Inr _) \<Rightarrow>
          (case stream_loop fp connection_id session_id user_input w1
                  (fst agent_stream) (snd agent_stream) [] of
             (w2, Inl exc) \<Rightarrow> (w2, Inl exc)
           | (w2, Inr assistant_chunks) \<Rightarrow>
               (case post_to_connection fp w2 connection_id
                       (stream_event session_id user_input [] ''end_of_message'') of
                  (w3, Inl exc) \<Rightarrow> (w3, Inl exc)
                | (w3, Inr _) \<Rightarrow>
                    (let agent_response = concat assistant_chunks;
                         chat_object_agent =
                           initialize_chat_agent now user_id agent_response session_id
                     in case write_object fp w3 (Chat_object chat_object_agent) of
                          (w4, Inl exc) \<Rightarrow> (w4, Inl exc)
                        | (w4, Inr _) \<Rightarrow> (w4, Inr agent_response)))))"

text \<open>
  \<open>stream_to_client_and_persist\<close>: on an exception of the body the error event is posted,
  a failure of that post is dropped, and the exception is raised again.
\<close>

definition stream_to_client_and_persist ::
  "faults \<Rightarrow> string \<Rightarrow> world \<Rightarrow> string list \<times> stream_end \<Rightarrow> string \<Rightarrow> string \<Rightarrow> string
     \<Rightarrow> string \<Rightarrow> world \<times> (py_exception + string)" where
  "stream_to_client_and_persist fp now w agent_stream user_input connection_id session_id
     user_id =
     (case stream_and_persist fp now w agent_stream user_input connection_id session_id
             user_id of
        (w', Inr agent_response) \<Rightarrow> (w', Inr agent_response)
      | (w', Inl stream_exc) \<Rightarrow>
          (fst (post_to_connection fp w' connection_id (error_event stream_exc)),
           Inl stream_exc))"

section \<open>Concrete states used to exercise the theorems\<close>


text \<open>
  A quiz of three questions in progress at question 0, and the same quiz after its last
  question was answered.
\<close>

definition quiz_in_progress :: quiz_db where
  "quiz_in_progress =
     \<lparr>quiz_table = Map.empty,
      session_table = [''s1'' \<mapsto>
        \<lparr>state = Some ''in_progress'', current_question = Some 0, total_questions = Some 3,
         score = Some 0, topic = Some ''Fractions'', grade = Some 5\<rparr>]\<rparr>"

definition quiz_completed :: quiz_db where
  "quiz_completed =
     \<lparr>quiz_table = Map.empty,
      session_table = [''s1'' \<mapsto>
        \<lparr>state = Some ''completed'', current_question = Some 3, total_questions = Some 3,
         score = Some 2, topic = Some ''Fractions'', grade = Some 5\<rparr>]\<rparr>"

text \<open>
  A table holding the session of user \<open>alice\<close> and one chat turn of it.
\<close>

definition alice_session :: UserSession where
  "alice_session =
     \<lparr>us_user_id = ''alice'', us_timestamp = ''2025-01-01 10:00:00'',
      us_session_id = ''alice-Ab3dE6gH'', title = ''New Chat'', session_summary = [],
      is_deleted = False, has_ended = False, message_count = 1,
      message_count_summarized = 0\<rparr>"

definition alice_world :: world where
  "alice_world =
     \<lparr>table =
        [write_item (Chat_object
           \<lparr>chat_session_id = ''alice-Ab3dE6gH'', chat_timestamp = ''2025-01-01 10:00:00.250'',
            role = ''user'', message = ''hello'', chat_user_id = ''alice'', file_name = None,
            s3_file_name = None, file_type = None, chat_topic = None\<rparr>),
         write_item (Session_object alice_session)],
      trace = []\<rparr>"

section \<open>Correctness of the streaming tag filter\<close>

subsection \<open>Facts about \<open>find\<close> and the partial-match loop\<close>

lemma find_sub_Some_iff:
  "find_sub pat s = Some k \<longleftrightarrow>
     k \<le> length s \<and> prefix pat (drop k s) \<and> (\<forall>i<k. \<not> prefix pat (drop i s))"
proof (induction s arbitrary: k)
  case Nil
  then show ?case by auto
next
  case (Cons x xs)
  show ?case
  proof (cases "prefix pat (x # xs)")
    case True
    then show ?thesis by (cases k) auto
  next
    case False
    show ?thesis
    proof (cases k)
      case 0
      then show ?thesis using False by auto
    next
      case (Suc k')
      have "(\<forall>i<Suc k'. \<not> prefix pat (drop i (x # xs))) \<longleftrightarrow> (\<forall>i<k'. \<not> prefix pat (drop i xs))"
        using False by (auto simp: less_Suc_eq_0_disj)
      then show ?thesis using False Suc Cons.IH[of k'] by auto
    qed
  qed
qed

lemma find_sub_None_iff:
  "find_sub pat s = None \<longleftrightarrow> (\<forall>i\<le>length s. \<not> prefix pat (drop i s))"
proof (induction s)
  case Nil
  then show ?case by auto
next
  case (Cons x xs)
  have "(\<forall>i\<le>length (x # xs). \<not> prefix pat (drop i (x # xs))) \<longleftrightarrow>
        \<not> prefix pat (x # xs) \<and> (\<forall>i\<le>length xs. \<not> prefix pat (drop i xs))"
    (is "?L \<longleftrightarrow> ?R")
  proof
    assume L: ?L
    have "\<not> prefix pat (x # xs)" using L[rule_format, of 0] by simp
    moreover have "\<not> prefix pat (drop i xs)" if "i \<le> length xs" for i
      using L[rule_format, of "Suc i"] that by simp
    ultimately show ?R by blast
  next
    assume R: ?R
    show ?L
    proof (intro allI impI)
      fix i assume "i \<le> length (x # xs)"
      then show "\<not> prefix pat (drop i (x # xs))" using R by (cases i) auto
    qed
  qed
  then show ?case using Cons.IH by auto
qed

lemma find_sub_bound:
  assumes "find_sub pat s = Some k"
  shows "k + length pat \<le> length s"
proof -
  from assms have k: "k \<le> length s" and p: "prefix pat (drop k s)"
    by (simp_all add: find_sub_Some_iff)
  from p have "length pat \<le> length (drop k s)" by (rule prefix_length_le)
  with k show ?thesis by simp
qed

lemma prefix_append_long:
  assumes "prefix pat (xs @ ys)" and "length pat \<le> length xs"
  shows "prefix pat xs"
proof -
  from assms(1) obtain zs where z: "xs @ ys = pat @ zs" by (auto simp: prefix_def)
  have "take (length pat) (xs @ ys) = pat" using z by simp
  then have "take (length pat) xs = pat" using assms(2) by simp
  then show ?thesis by (metis take_is_prefix)
qed

lemma prefix_append_short:
  assumes "prefix pat (xs @ ys)" and "length xs \<le> length pat"
  shows "xs = take (length xs) pat"
proof -
  from assms(1) obtain zs where z: "xs @ ys = pat @ zs" by (auto simp: prefix_def)
  have "take (length xs) (xs @ ys) = take (length xs) (pat @ zs)" using z by simp
  then show ?thesis using assms(2) by simp
qed

lemma find_sub_append:
  assumes "find_sub pat s = Some k"
  shows "find_sub pat (s @ r) = Some k"
proof -
  have b: "k + length pat \<le> length s" using assms by (rule find_sub_bound)
  from assms have p: "prefix pat (drop k s)" and n: "\<forall>i<k. \<not> prefix pat (drop i s)"
    by (simp_all add: find_sub_Some_iff)
  have "prefix pat (drop k (s @ r))" using p b by (simp add: prefix_prefix)
  moreover have "\<not> prefix pat (drop i (s @ r))" if "i < k" for i
  proof
    assume "prefix pat (drop i (s @ r))"
    then have "prefix pat (drop i s @ r)" using that b by simp
    moreover have "length pat \<le> length (drop i s)" using that b by simp
    ultimately have "prefix pat (drop i s)" by (rule prefix_append_long)
    with n that show False by blast
  qed
  moreover have "k \<le> length (s @ r)" using b by simp
  ultimately show ?thesis by (simp add: find_sub_Some_iff)
qed

lemma find_sub_skip:
  "c \<le> length s \<Longrightarrow> (\<forall>i<c. \<not> prefix pat (drop i s)) \<Longrightarrow>
   find_sub pat s = map_option (\<lambda>k. k + c) (find_sub pat (drop c s))"
proof (induction c arbitrary: s)
  case 0
  then show ?case by (simp add: option.map_ident)
next
  case (Suc c)
  then obtain x xs where s: "s = x # xs" by (cases s) auto
  have np: "\<not> prefix pat (x # xs)" using Suc.prems(2)[rule_format, of 0] s by simp
  have "\<forall>i<c. \<not> prefix pat (drop i xs)"
  proof (intro allI impI)
    fix i assume "i < c"
    then show "\<not> prefix pat (drop i xs)" using Suc.prems(2)[rule_format, of "Suc i"] s by simp
  qed
  moreover have "c \<le> length xs" using Suc.prems(1) s by simp
  ultimately have "find_sub pat xs = map_option (\<lambda>k. k + c) (find_sub pat (drop c xs))"
    using Suc.IH[of xs] by blast
  then show ?case using np s by (simp add: option.map_comp comp_def)
qed

lemma find_sub_drop_None:
  assumes "find_sub pat s = None"
  shows "find_sub pat (drop c s) = None"
proof (cases "c \<le> length s")
  case True
  show ?thesis unfolding find_sub_None_iff
  proof (intro allI impI)
    fix i assume "i \<le> length (drop c s)"
    then have "c + i \<le> length s" using True by simp
    then have "\<not> prefix pat (drop (c + i) s)" using assms by (simp add: find_sub_None_iff)
    then show "\<not> prefix pat (drop i (drop c s))" by (simp add: add.commute)
  qed
next
  case False
  from assms have "\<forall>i\<le>length s. \<not> prefix pat (drop i s)"
    by (simp only: find_sub_None_iff)
  then have "\<not> prefix pat (drop (length s) s)" by blast
  then have "pat \<noteq> []" by auto
  then show ?thesis using False by simp
qed

lemma lower_append [simp]: "lower (a @ b) = lower a @ lower b"
  by (simp add: lower_def)

lemma lower_drop [simp]: "lower (drop n a) = drop n (lower a)"
  by (simp add: lower_def drop_map)

lemma length_lower [simp]: "length (lower a) = length a"
  by (simp add: lower_def)

lemma partial_match_Some:
  "partial_match tag buf n = Some i \<Longrightarrow>
     0 < i \<and> i \<le> n \<and> drop (length buf - i) (lower buf) = take i tag \<and>
     (\<forall>j. i < j \<and> j \<le> n \<longrightarrow> drop (length buf - j) (lower buf) \<noteq> take j tag)"
proof (induction n)
  case 0
  then show ?case by simp
next
  case (Suc n)
  show ?case
  proof (cases "lower (drop (length buf - Suc n) buf) = take (Suc n) tag")
    case True
    then show ?thesis using Suc.prems by auto
  next
    case False
    then have "partial_match tag buf n = Some i" using Suc.prems by simp
    then show ?thesis using Suc.IH False by (auto simp: le_Suc_eq)
  qed
qed

lemma partial_match_None:
  "partial_match tag buf n = None \<Longrightarrow>
     (\<forall>j. 0 < j \<and> j \<le> n \<longrightarrow> drop (length buf - j) (lower buf) \<noteq> take j tag)"
proof (induction n)
  case 0
  then show ?case by auto
next
  case (Suc n)
  from Suc.prems have ne: "lower (drop (length buf - Suc n) buf) \<noteq> take (Suc n) tag"
    and rest: "partial_match tag buf n = None"
    by (simp_all split: if_splits)
  show ?case
  proof (intro allI impI)
    fix j assume j: "0 < j \<and> j \<le> Suc n"
    show "drop (length buf - j) (lower buf) \<noteq> take j tag"
    proof (cases "j = Suc n")
      case True
      then show ?thesis using ne by simp
    next
      case False
      then show ?thesis using j Suc.IH[OF rest] by simp
    qed
  qed
qed

text \<open>No occurrence of the tag starts in the part of the buffer that is given up.\<close>

lemma no_straddle:
  assumes none: "find_sub tag (lower B) = None"
    and keep: "\<forall>j. h < j \<and> j < length tag \<and> j \<le> length B \<longrightarrow>
                 drop (length B - j) (lower B) \<noteq> take j tag"
    and i: "i < length B - h"
  shows "\<not> prefix tag (drop i (lower (B @ r)))"
proof
  assume p: "prefix tag (drop i (lower (B @ r)))"
  have iB: "i < length B" using i by simp
  from p have p': "prefix tag (drop i (lower B) @ lower r)" using iB by simp
  show False
  proof (cases "length tag \<le> length B - i")
    case True
    then have "prefix tag (drop i (lower B))" using p' by (intro prefix_append_long[OF p']) simp
    moreover have "\<not> prefix tag (drop i (lower B))"
      using none iB by (simp add: find_sub_None_iff)
    ultimately show False by blast
  next
    case False
    then have "drop i (lower B) = take (length (drop i (lower B))) tag"
      by (intro prefix_append_short[OF p']) simp
    then have "drop (length B - (length B - i)) (lower B) = take (length B - i) tag"
      using iB by simp
    moreover have "h < length B - i" "length B - i < length tag" "length B - i \<le> length B"
      using i False by simp_all
    ultimately show False using keep by blast
  qed
qed

subsection \<open>The reference function\<close>

lemma length_open_tag [simp]: "length open_tag = 10"
  by (simp add: open_tag_def)

lemma length_close_tag [simp]: "length close_tag = 11"
  by (simp add: close_tag_def)

lemma strip_open_found:
  assumes "find_sub open_tag (lower B) = Some k"
  shows "strip_spans False (B @ r) = take k B @ strip_spans True (drop (k + 10) B @ r)"
proof -
  have b: "k + 10 \<le> length B" using find_sub_bound[OF assms] by simp
  have "find_sub open_tag (lower (B @ r)) = Some k"
    using find_sub_append[OF assms, of "lower r"] by simp
  then have "strip_spans False (B @ r) = take k (B @ r) @ strip_spans True (drop (k + 10) (B @ r))"
    by (subst strip_spans.simps) simp
  then show ?thesis using b by simp
qed

lemma strip_close_found:
  assumes "find_sub close_tag (lower B) = Some j"
  shows "strip_spans True (B @ r) = strip_spans False (drop (j + 11) B @ r)"
proof -
  have b: "j + 11 \<le> length B" using find_sub_bound[OF assms] by simp
  have "find_sub close_tag (lower (B @ r)) = Some j"
    using find_sub_append[OF assms, of "lower r"] by simp
  then have "strip_spans True (B @ r) = strip_spans False (drop (j + 11) (B @ r))"
    by (subst strip_spans.simps) simp
  then show ?thesis using b by simp
qed

lemma strip_outside_skip:
  assumes c: "c \<le> length s" and n: "\<forall>i<c. \<not> prefix open_tag (drop i (lower s))"
  shows "strip_spans False s = take c s @ strip_spans False (drop c s)"
proof -
  have f: "find_sub open_tag (lower s) =
           map_option (\<lambda>k. k + c) (find_sub open_tag (lower (drop c s)))"
    using find_sub_skip[of c "lower s" open_tag] c n by simp
  show ?thesis
  proof (cases "find_sub open_tag (lower (drop c s))")
    case None
    then have "strip_spans False (drop c s) = drop c s"
      by (subst strip_spans.simps) simp
    moreover have "strip_spans False s = s"
      using None f by (subst strip_spans.simps) simp
    ultimately show ?thesis by simp
  next
    case (Some k)
    then have "strip_spans False (drop c s) =
               take k (drop c s) @ strip_spans True (drop (k + 10) (drop c s))"
      by (subst strip_spans.simps) simp
    moreover have "strip_spans False s = take (k + c) s @ strip_spans True (drop (k + c + 10) s)"
      using Some f by (subst strip_spans.simps) simp
    moreover have "take (k + c) s = take c s @ take k (drop c s)"
      by (simp add: take_add add.commute)
    moreover have "drop (k + 10) (drop c s) = drop (k + c + 10) s"
      by (simp add: ac_simps)
    ultimately show ?thesis by simp
  qed
qed

lemma strip_inside_skip:
  assumes c: "c \<le> length s" and n: "\<forall>i<c. \<not> prefix close_tag (drop i (lower s))"
  shows "strip_spans True s = strip_spans True (drop c s)"
proof -
  have f: "find_sub close_tag (lower s) =
           map_option (\<lambda>k. k + c) (find_sub close_tag (lower (drop c s)))"
    using find_sub_skip[of c "lower s" close_tag] c n by simp
  show ?thesis
  proof (cases "find_sub close_tag (lower (drop c s))")
    case None
    then have "strip_spans True (drop c s) = []"
      by (subst strip_spans.simps) simp
    moreover have "strip_spans True s = []"
      using None f by (subst strip_spans.simps) simp
    ultimately show ?thesis by simp
  next
    case (Some k)
    then have "strip_spans True (drop c s) = strip_spans False (drop (k + 11) (drop c s))"
      by (subst strip_spans.simps) simp
    moreover have "strip_spans True s = strip_spans False (drop (k + c + 11) s)"
      using Some f by (subst strip_spans.simps) simp
    moreover have "drop (k + 11) (drop c s) = drop (k + c + 11) s"
      by (simp add: ac_simps)
    ultimately show ?thesis by simp
  qed
qed

text \<open>What is held back when no tag was found: a suffix of length \<open>h\<close>.\<close>

lemma strip_open_hold:
  assumes none: "find_sub open_tag (lower B) = None"
    and keep: "\<forall>j. h < j \<and> j < 10 \<and> j \<le> length B \<longrightarrow>
                 drop (length B - j) (lower B) \<noteq> take j open_tag"
  shows "strip_spans False (B @ r) =
         take (length B - h) B @ strip_spans False (drop (length B - h) B @ r)"
proof -
  have "\<forall>i<length B - h. \<not> prefix open_tag (drop i (lower (B @ r)))"
    using no_straddle[of open_tag B h _ r] none keep by simp
  then have "strip_spans False (B @ r) =
             take (length B - h) (B @ r) @ strip_spans False (drop (length B - h) (B @ r))"
    by (intro strip_outside_skip) simp_all
  then show ?thesis by simp
qed

lemma strip_close_hold:
  assumes none: "find_sub close_tag (lower B) = None"
    and keep: "\<forall>j. h < j \<and> j < 11 \<and> j \<le> length B \<longrightarrow>
                 drop (length B - j) (lower B) \<noteq> take j close_tag"
  shows "strip_spans True (B @ r) = strip_spans True (drop (length B - h) B @ r)"
proof -
  have "\<forall>i<length B - h. \<not> prefix close_tag (drop i (lower (B @ r)))"
    using no_straddle[of close_tag B h _ r] none keep by simp
  then have "strip_spans True (B @ r) = strip_spans True (drop (length B - h) (B @ r))"
    by (intro strip_inside_skip) simp_all
  then show ?thesis by simp
qed

lemma partial_match_not_full:
  assumes none: "find_sub tag (lower B) = None"
    and pm: "partial_match tag B (min (length tag) (length B)) = Some i"
  shows "i < length tag"
proof (rule ccontr)
  assume "\<not> i < length tag"
  moreover from partial_match_Some[OF pm]
  have i: "i \<le> min (length tag) (length B)"
    and eq: "drop (length B - i) (lower B) = take i tag" by simp_all
  ultimately have "i = length tag" "i \<le> length B" by simp_all
  then have "prefix tag (drop (length B - i) (lower B))" using eq by simp
  moreover have "\<not> prefix tag (drop (length B - i) (lower B))"
    using none by (simp add: find_sub_None_iff)
  ultimately show False by blast
qed

subsection \<open>One run of the loop, and all of them\<close>

lemma process_outside_none:
  assumes hom: "yield_hom tr"
    and none: "find_sub open_tag (lower B) = None"
    and res: "process_buffer tr B False = (ys, st')"
  shows "refines tr ys st' (B, False) \<and> quiescent st'"
proof -
  define h where "h = (case partial_match open_tag B (min 10 (length B)) of Some i \<Rightarrow> i | None \<Rightarrow> 0)"
  define safe_end where "safe_end = length B - h"
  have se: "(case partial_match open_tag B (min 10 (length B)) of
               Some i \<Rightarrow> length B - i | None \<Rightarrow> length B) = safe_end"
    by (simp add: safe_end_def h_def split: option.splits)
  have hb: "h \<le> length B \<and> h \<le> 9"
  proof (cases "partial_match open_tag B (min 10 (length B))")
    case None
    then show ?thesis by (simp add: h_def)
  next
    case (Some i)
    have "i < length open_tag"
      using partial_match_not_full[OF none, of i] Some by simp
    moreover have "i \<le> min 10 (length B)" using partial_match_Some[OF Some] by simp
    ultimately show ?thesis using Some by (simp add: h_def)
  qed
  have keep: "\<forall>j. h < j \<and> j < 10 \<and> j \<le> length B \<longrightarrow>
                drop (length B - j) (lower B) \<noteq> take j open_tag"
  proof (cases "partial_match open_tag B (min 10 (length B))")
    case None
    then show ?thesis using partial_match_None[OF None] by (simp add: h_def)
  next
    case (Some i)
    then show ?thesis using partial_match_Some[OF Some] by (simp add: h_def)
  qed
  have split: "\<And>r. strip_spans False (B @ r) =
                 take safe_end B @ strip_spans False (drop safe_end B @ r)"
    unfolding safe_end_def by (rule strip_open_hold[OF none keep])
  have st': "ys = (if safe_end > 0 then [tr (take safe_end B)] else []) \<and>
             st' = (drop safe_end B, False)"
    using res none se by (subst (asm) process_buffer.simps) (auto simp: Let_def)
  have "refines tr ys st' (B, False)"
    using hom st' split by (auto simp: refines_def yield_hom_def)
  moreover have "find_sub open_tag (lower (drop safe_end B)) = None"
    using find_sub_drop_None[OF none, of safe_end] by simp
  moreover have "length (drop safe_end B) \<le> 9" using hb by (simp add: safe_end_def)
  ultimately show ?thesis using st' by (simp add: quiescent_def)
qed

lemma process_inside_none:
  assumes none: "find_sub close_tag (lower B) = None"
    and res: "process_buffer tr B True = (ys, st')"
  shows "refines tr ys st' (B, True) \<and> quiescent st'"
proof (cases "length B > 11")
  case False
  then have "ys = [] \<and> st' = (B, True)"
    using res none by (subst (asm) process_buffer.simps) auto
  then show ?thesis using none False by (simp add: refines_def quiescent_def)
next
  case True
  define h where "h = (case partial_match close_tag B (min 11 (length B)) of Some i \<Rightarrow> i | None \<Rightarrow> 11)"
  have hb: "h \<le> 11"
  proof (cases "partial_match close_tag B (min 11 (length B))")
    case None
    then show ?thesis by (simp add: h_def)
  next
    case (Some i)
    then show ?thesis using partial_match_Some[OF Some] by (simp add: h_def)
  qed
  have keep: "\<forall>j. h < j \<and> j < 11 \<and> j \<le> length B \<longrightarrow>
                drop (length B - j) (lower B) \<noteq> take j close_tag"
  proof (cases "partial_match close_tag B (min 11 (length B))")
    case None
    then have "h = 11" by (simp add: h_def)
    then show ?thesis by auto
  next
    case (Some i)
    then show ?thesis using partial_match_Some[OF Some] by (simp add: h_def)
  qed
  have split: "\<And>r. strip_spans True (B @ r) = strip_spans True (drop (length B - h) B @ r)"
    by (rule strip_close_hold[OF none keep])
  have st': "ys = [] \<and> st' = (drop (length B - h) B, True)"
    using res none True
    by (subst (asm) process_buffer.simps) (auto simp: h_def split: option.splits)
  have "refines tr ys st' (B, True)"
    using st' split by (simp add: refines_def)
  moreover have "find_sub close_tag (lower (drop (length B - h) B)) = None"
    using find_sub_drop_None[OF none, of "length B - h"] by simp
  moreover have "length (drop (length B - h) B) \<le> 11" using hb by simp
  ultimately show ?thesis using st' by (simp add: quiescent_def)
qed

lemma process_buffer_step:
  "yield_hom tr \<Longrightarrow> process_buffer tr B s = (ys, st') \<Longrightarrow>
     refines tr ys st' (B, s) \<and> quiescent st'"
proof (induction tr B s arbitrary: ys st' rule: process_buffer.induct)
  case (1 tr buffer inside)
  note hom = "1.prems"(1) and res = "1.prems"(2)
  show ?case
  proof (cases inside)
    case False
    show ?thesis
    proof (cases "find_sub open_tag (lower buffer)")
      case None
      then show ?thesis using process_outside_none[OF hom None] res False by simp
    next
      case (Some start)
      obtain ys1 where ys1: "process_buffer tr (drop (start + 10) buffer) True = (ys1, st')"
        and ys: "ys = (if start > 0 then [tr (take start buffer)] else []) @ ys1"
        using res False Some
        by (subst (asm) process_buffer.simps) (auto split: prod.splits)
      have ih: "refines tr ys1 st' (drop (start + 10) buffer, True) \<and> quiescent st'"
        using "1.IH"(1)[OF _ Some hom ys1] False by simp
      have "concat ys = tr (take start buffer) @ concat ys1"
        using ys hom by (auto simp: yield_hom_def)
      then have "refines tr ys st' (buffer, inside)"
        using ih hom False strip_open_found[OF Some]
        by (simp add: refines_def yield_hom_def)
      then show ?thesis using ih by simp
    qed
  next
    case True
    show ?thesis
    proof (cases "find_sub close_tag (lower buffer)")
      case None
      then show ?thesis using process_inside_none[OF None] res True by simp
    next
      case (Some pos)
      have r: "process_buffer tr (drop (pos + 11) buffer) False = (ys, st')"
        using res True Some by (subst (asm) process_buffer.simps) simp
      have ih: "refines tr ys st' (drop (pos + 11) buffer, False) \<and> quiescent st'"
        using "1.IH"(2)[OF _ Some hom r] True by simp
      then have "refines tr ys st' (buffer, inside)"
        using True strip_close_found[OF Some] by (simp add: refines_def)
      then show ?thesis using ih by simp
    qed
  qed
qed

lemma feed_all_step:
  "yield_hom tr \<Longrightarrow> feed_all tr st chunks = (ys, st') \<Longrightarrow> quiescent st \<Longrightarrow>
     (\<forall>r. concat ys @ tr (strip_spans (snd st') (fst st' @ r)) =
          tr (strip_spans (snd st) (fst st @ stream_text chunks @ r))) \<and> quiescent st'"
proof (induction chunks arbitrary: st ys)
  case Nil
  then show ?case by simp
next
  case (Cons chunk chunks)
  note hom = Cons.prems(1)
  show ?case
  proof (cases chunk)
    case None
    then have "feed_all tr st chunks = (ys, st')"
      using Cons.prems(2) by (simp add: feed_def)
    then show ?thesis using Cons.IH[OF hom _ Cons.prems(3)] None by simp
  next
    case (Some data)
    obtain y1 st1 where p: "process_buffer tr (fst st @ data) (snd st) = (y1, st1)"
      by (cases "process_buffer tr (fst st @ data) (snd st)") auto
    obtain zs where z: "feed_all tr st1 chunks = (zs, st')" and ys: "ys = y1 @ zs"
      using Cons.prems(2) Some p by (auto simp: feed_def split: prod.splits)
    have s1: "refines tr y1 st1 (fst st @ data, snd st)" and q1: "quiescent st1"
      using process_buffer_step[OF hom p] by simp_all
    have ih: "\<forall>r. concat zs @ tr (strip_spans (snd st') (fst st' @ r)) =
                 tr (strip_spans (snd st1) (fst st1 @ stream_text chunks @ r))"
      and q: "quiescent st'"
      using Cons.IH[OF hom z q1] by simp_all
    have "concat ys @ tr (strip_spans (snd st') (fst st' @ r)) =
          tr (strip_spans (snd st) (fst st @ stream_text (chunk # chunks) @ r))" for r
    proof -
      have "concat ys @ tr (strip_spans (snd st') (fst st' @ r)) =
            concat y1 @ tr (strip_spans (snd st1) (fst st1 @ stream_text chunks @ r))"
        using ih ys by simp
      also have "\<dots> = tr (strip_spans (snd st) ((fst st @ data) @ stream_text chunks @ r))"
        using s1[unfolded refines_def, rule_format, of "stream_text chunks @ r"] by simp
      finally show ?thesis using Some by simp
    qed
    then show ?thesis using q by blast
  qed
qed

lemma strip_spans_quiescent:
  assumes "quiescent st"
  shows "strip_spans (snd st) (fst st) = (if snd st then [] else fst st)"
  using assms by (subst strip_spans.simps) (auto simp: quiescent_def)

lemma quiescent_init: "quiescent ([], False)"
  by (simp add: quiescent_def lower_def open_tag_def)

lemma stream_filter_refines:
  assumes hom: "yield_hom tr"
  shows "concat (stream_filter tr chunks) = tr (strip_spans False (stream_text chunks))"
proof -
  obtain ys st' where f: "feed_all tr ([], False) chunks = (ys, st')"
    by (cases "feed_all tr ([], False) chunks") auto
  have r: "concat ys @ tr (strip_spans (snd st') (fst st')) =
           tr (strip_spans False (stream_text chunks))"
    and q: "quiescent st'"
    using feed_all_step[OF hom f quiescent_init] by (simp_all, metis append_Nil2)
  have "concat (stream_filter tr chunks) =
        concat ys @ tr (if snd st' then [] else fst st')"
    using f hom by (cases st') (auto simp: stream_filter_def yield_hom_def)
  then show ?thesis using r strip_spans_quiescent[OF q] by simp
qed

lemma pending_quiescent: "quiescent (pending (\<lambda>s. s) chunks)"
proof -
  obtain ys st' where f: "feed_all (\<lambda>s. s) ([], False) chunks = (ys, st')"
    by (cases "feed_all (\<lambda>s. s) ([], False) chunks") auto
  have "yield_hom (\<lambda>s. s)" by (simp add: yield_hom_def)
  from feed_all_step[OF this f quiescent_init] show ?thesis using f by (simp add: pending_def)
qed

lemma yield_hom_id: "yield_hom (\<lambda>s. s)"
  by (simp add: yield_hom_def)

lemma yield_hom_replace_nl: "yield_hom replace_nl"
  by (simp add: yield_hom_def replace_nl_def)



lemma process_buffer_state:
  "snd (process_buffer tr B s) = snd (process_buffer (\<lambda>s. s) B s)"
proof (induction tr B s rule: process_buffer.induct)
  case (1 tr buffer inside)
  show ?case
  proof (cases inside)
    case False
    show ?thesis
    proof (cases "find_sub open_tag (lower buffer)")
      case None
      then show ?thesis using False
        by (subst process_buffer.simps, subst (2) process_buffer.simps) (simp add: Let_def)
    next
      case (Some start)
      then show ?thesis using False "1.IH"(1)[OF _ Some]
        by (subst process_buffer.simps, subst (2) process_buffer.simps)
          (simp add: split_beta)
    qed
  next
    case True
    show ?thesis
    proof (cases "find_sub close_tag (lower buffer)")
      case None
      then show ?thesis using True
        by (subst process_buffer.simps, subst (2) process_buffer.simps)
          (simp split: option.splits)
    next
      case (Some pos)
      then show ?thesis using True "1.IH"(2)[OF _ Some]
        by (subst process_buffer.simps, subst (2) process_buffer.simps) simp
    qed
  qed
qed

lemma feed_all_state:
  "snd (feed_all tr st chunks) = snd (feed_all (\<lambda>s. s) st chunks)"
proof (induction chunks arbitrary: st)
  case Nil
  then show ?case by simp
next
  case (Cons chunk chunks)
  have "snd (feed tr st chunk) = snd (feed (\<lambda>s. s) st chunk)"
    by (cases chunk) (simp_all add: feed_def process_buffer_state[of tr])
  then show ?case using Cons.IH by (simp add: split_beta)
qed

lemma pending_any: "pending tr chunks = pending (\<lambda>s. s) chunks"
  by (simp add: pending_def feed_all_state[of tr])

section \<open>The claims about the streaming tag filter\<close>



text \<open>
  Claim C2, as stated, fails for the quizzer agent: its generator replaces every newline of the
  text it yields by \<open><br>\<close>, so a text with a newline and no open tag is not reproduced
  character for character.
\<close>

theorem quizzer_newline_counterexample:
  "find_sub open_tag (lower (stream_text [Some ''a\<newline>b''])) = None \<and>
   concat (quizzer_agent_stream_async [Some ''a\<newline>b'']) = ''a<br>b'' \<and>
   concat (quizzer_agent_stream_async [Some ''a\<newline>b'']) \<noteq> stream_text [Some ''a\<newline>b'']"
  by code_simp

text \<open>
  Claim C2, amended. When the text of the model stream has no open tag (compared without
  regard to case), the fragments yielded by the general and by the curriculum agent concatenate
  to that text exactly, and those yielded by the quizzer agent to that text with every newline
  replaced by \<open><br>\<close>.
\<close>

theorem no_open_tag_passes:
  assumes "find_sub open_tag (lower (stream_text chunks)) = None"
  shows "concat (general_agent_stream_async chunks) = stream_text chunks \<and>
         concat (curriculum_agent_stream_async chunks) = stream_text chunks \<and>
         concat (quizzer_agent_stream_async chunks) = replace_nl (stream_text chunks)"
proof -
  have "strip_spans False (stream_text chunks) = stream_text chunks"
    using assms by (subst strip_spans.simps) simp
  then show ?thesis
    by (simp add: general_agent_stream_async_def curriculum_agent_stream_async_def
        quizzer_agent_stream_async_def stream_filter_refines yield_hom_id
        yield_hom_replace_nl)
qed

theorem no_open_tag_passes_witness:
  "find_sub open_tag (lower (stream_text [Some ''<think'', None, Some ''er>\<newline>ok''])) = None \<and>
   concat (general_agent_stream_async [Some ''<think'', None, Some ''er>\<newline>ok'']) = ''<thinker>\<newline>ok'' \<and>
   concat (curriculum_agent_stream_async [Some ''<think'', None, Some ''er>\<newline>ok'']) = ''<thinker>\<newline>ok'' \<and>
   concat (quizzer_agent_stream_async [Some ''<think'', None, Some ''er>\<newline>ok'']) = ''<thinker><br>ok''"
proof -
  let ?cs = "[Some ''<think'', None, Some ''er>\<newline>ok'']"
  have h: "find_sub open_tag (lower (stream_text ?cs)) = None" by code_simp
  have r: "replace_nl ''<thinker>\<newline>ok'' = ''<thinker><br>ok''" by code_simp
  show ?thesis using no_open_tag_passes[OF h] h r by simp
qed



text \<open>
  Claim C5, as stated, fails inside a span: the buffer is cut only when it is longer than 11
  characters, and then to 11 characters when no suffix starts a close tag. After the chunk
  \<open><thinking>abcdefghijk\<close> the filter waits inside the span with 11 characters pending.
\<close>

theorem inside_pending_counterexample:
  "snd (pending (\<lambda>s. s) [Some ''<thinking>abcdefghijk'']) \<and>
   length (fst (pending (\<lambda>s. s) [Some ''<thinking>abcdefghijk''])) = 11 \<and>
   \<not> length (fst (pending (\<lambda>s. s) [Some ''<thinking>abcdefghijk''])) \<le> 10"
  by code_simp

text \<open>
  Claim C5, amended. Whenever the filter waits for more input, after any finite sequence of
  chunks and for each agent's generator, the pending buffer holds at most 9 characters outside
  a span and at most 11 characters inside one.
\<close>

theorem pending_buffer_bound:
  "length (fst (pending tr chunks)) \<le> (if snd (pending tr chunks) then 11 else 9)"
  using pending_quiescent[of chunks] by (simp add: pending_any[of tr] quiescent_def)

theorem pending_buffer_bound_witness:
  "length (fst (pending replace_nl [Some ''a<thinking>abcdefghijkl</th''])) \<le> 11"
  using pending_buffer_bound[of replace_nl "[Some ''a<thinking>abcdefghijkl</th'']"]
  by (simp split: if_splits)

section \<open>The claims about the quiz session engine\<close>

lemma evaluate_answer_session:
  assumes "session_table db session_id = Some s"
  shows "evaluate_answer db session_id q_index question_text opts correct_answer answer =
     (let same = (strip (upper answer) = strip (upper correct_answer));
          db1 = db_update_question_answer db session_id q_index answer same;
          new_question = get_or (current_question s) 0 + 1
      in (db_update_session_progress db1 session_id
            (Some (get_or (score s) 0 + (if same then 1 else 0)))
            (Some new_question)
            (Some (if new_question \<ge> get_or (total_questions s) 0
                   then ''completed'' else ''in_progress'')),
          Inr \<lparr>is_correct = same,
               r_user_answer = strip (upper answer),
               r_correct_answer = strip (upper correct_answer),
               user_choice_text = get_or (opts (strip (upper answer))) ''Invalid'',
               correct_choice_text = get_or (opts (strip (upper correct_answer))) []\<rparr>))"
  using assms
  by (simp add: evaluate_answer_def db_get_session_def db_update_question_answer_def Let_def)





text \<open>
  Claim C7, as stated, fails in its last part: the state is set to \<open>completed\<close> when the
  new index is greater than or equal to \<open>total_questions\<close>, not only when it is equal. An
  answer given to the completed quiz leaves it \<open>completed\<close> with index 4 of 3.
\<close>

theorem completed_beyond_total_counterexample:
  "session_table
     (fst (evaluate_answer quiz_completed ''s1'' 3 ''Q'' Map.empty ''A'' ''a'')) ''s1'' =
     Some \<lparr>state = Some ''completed'', current_question = Some 4, total_questions = Some 3,
           score = Some 3, topic = Some ''Fractions'', grade = Some 5\<rparr> \<and>
   map_option current_question
     (session_table
        (fst (evaluate_answer quiz_completed ''s1'' 3 ''Q'' Map.empty ''A'' ''a'')) ''s1'') \<noteq>
   map_option total_questions
     (session_table
        (fst (evaluate_answer quiz_completed ''s1'' 3 ''Q'' Map.empty ''A'' ''a'')) ''s1'')"
proof -
  have u: "strip (upper ''a'') = ''A''" "strip (upper ''A'') = ''A''" by code_simp+
  have s: "session_table quiz_completed ''s1'' =
     Some \<lparr>state = Some ''completed'', current_question = Some 3, total_questions = Some 3,
           score = Some 2, topic = Some ''Fractions'', grade = Some 5\<rparr>"
    by (simp add: quiz_completed_def)
  show ?thesis
    unfolding evaluate_answer_session[OF s]
    by (simp add: u s Let_def db_update_session_progress_def db_update_question_answer_def
        get_or_def)
qed

text \<open>
  Claim C7, amended. For every existing quiz session and every answer, \<open>evaluate_answer\<close>
  uppercases and trims the submitted and the correct label and compares the results; the
  score (read as 0 when absent) increases by 1 if the normalized labels are equal and is
  unchanged otherwise; the current question index advances by exactly 1; the state becomes
  \<open>completed\<close> if the new index is greater than or equal to \<open>total_questions\<close> and
  \<open>in_progress\<close> otherwise. No other attribute of the session changes.
\<close>

theorem evaluate_answer_progress:
  assumes "session_table db session_id = Some s"
  shows
    "snd (evaluate_answer db session_id q_index question_text opts correct_answer answer) =
       Inr \<lparr>is_correct = (strip (upper answer) = strip (upper correct_answer)),
            r_user_answer = strip (upper answer),
            r_correct_answer = strip (upper correct_answer),
            user_choice_text = get_or (opts (strip (upper answer))) ''Invalid'',
            correct_choice_text = get_or (opts (strip (upper correct_answer))) []\<rparr> \<and>
     session_table
       (fst (evaluate_answer db session_id q_index question_text opts correct_answer answer))
       session_id =
       Some (s\<lparr>score := Some (get_or (score s) 0 +
                   (if strip (upper answer) = strip (upper correct_answer) then 1 else 0)),
               current_question := Some (get_or (current_question s) 0 + 1),
               state := Some (if get_or (current_question s) 0 + 1
                                   \<ge> get_or (total_questions s) 0
                              then ''completed'' else ''in_progress'')\<rparr>)"
  by (simp add: evaluate_answer_session[OF assms] db_update_question_answer_def
      db_update_session_progress_def Let_def assms)

text \<open>
  Three correct answers in a row, given in lower case or with blanks around: the quiz of three
  questions goes from score 0 at question 0 to \<open>completed\<close> with score 3.
\<close>

theorem evaluate_answer_progress_witness:
  "session_table quiz_in_progress ''s1'' =
     Some \<lparr>state = Some ''in_progress'', current_question = Some 0, total_questions = Some 3,
           score = Some 0, topic = Some ''Fractions'', grade = Some 5\<rparr> \<and>
   session_table
     (fst (evaluate_answer
        (fst (evaluate_answer
           (fst (evaluate_answer quiz_in_progress ''s1'' 0 ''Q0'' Map.empty ''B'' '' b ''))
           ''s1'' 1 ''Q1'' Map.empty ''a'' ''A''))
        ''s1'' 2 ''Q2'' Map.empty ''D'' ''d'')) ''s1'' =
     Some \<lparr>state = Some ''completed'', current_question = Some 3, total_questions = Some 3,
           score = Some 3, topic = Some ''Fractions'', grade = Some 5\<rparr>"
proof -
  have u: "strip (upper '' b '') = ''B''" "strip (upper ''B'') = ''B''"
    "strip (upper ''a'') = ''A''" "strip (upper ''A'') = ''A''"
    "strip (upper ''d'') = ''D''" "strip (upper ''D'') = ''D''" by code_simp+
  have s0: "session_table quiz_in_progress ''s1'' =
     Some \<lparr>state = Some ''in_progress'', current_question = Some 0, total_questions = Some 3,
           score = Some 0, topic = Some ''Fractions'', grade = Some 5\<rparr>"
    by (simp add: quiz_in_progress_def)
  define db1 where "db1 = fst (evaluate_answer quiz_in_progress ''s1'' 0 ''Q0'' Map.empty ''B'' '' b '')"
  have s1: "session_table db1 ''s1'' =
     Some \<lparr>state = Some ''in_progress'', current_question = Some 1, total_questions = Some 3,
           score = Some 1, topic = Some ''Fractions'', grade = Some 5\<rparr>"
    unfolding db1_def
    using evaluate_answer_progress[OF s0, of 0 "''Q0''" Map.empty "''B''" "'' b ''"]
    by (simp add: u get_or_def)
  define db2 where "db2 = fst (evaluate_answer db1 ''s1'' 1 ''Q1'' Map.empty ''a'' ''A'')"
  have s2: "session_table db2 ''s1'' =
     Some \<lparr>state = Some ''in_progress'', current_question = Some 2, total_questions = Some 3,
           score = Some 2, topic = Some ''Fractions'', grade = Some 5\<rparr>"
    unfolding db2_def
    using evaluate_answer_progress[OF s1, of 1 "''Q1''" Map.empty "''a''" "''A''"]
    by (simp add: u get_or_def)
  have s3: "session_table (fst (evaluate_answer db2 ''s1'' 2 ''Q2'' Map.empty ''D'' ''d'')) ''s1'' =
     Some \<lparr>state = Some ''completed'', current_question = Some 3, total_questions = Some 3,
           score = Some 3, topic = Some ''Fractions'', grade = Some 5\<rparr>"
    using evaluate_answer_progress[OF s2, of 2 "''Q2''" Map.empty "''D''" "''d''"]
    by (simp add: u get_or_def)
  show ?thesis using s0 s3 unfolding db2_def db1_def by simp
qed

section \<open>The claims about the turn coordinator\<close>

subsection \<open>The calls to the collaborators\<close>

lemma post_to_connection_Inr:
  assumes "post_to_connection fp w connection_id data = (w', Inr u)"
  shows "w' = w\<lparr>trace := trace w @ [Post connection_id data True]\<rparr>"
  using assms by (auto simp: post_to_connection_def split: option.splits)



lemma write_object_Inr:
  assumes "write_object fp w object_data = (w', Inr u)"
  shows "w' = w\<lparr>table := filter (\<lambda>j. \<not> (PK j = PK (write_item object_data) \<and>
                                        SK j = SK (write_item object_data))) (table w)
                          @ [write_item object_data],
                trace := trace w @ [Put (write_item object_data) True]\<rparr>"
  using assms by (auto simp: write_object_def put_item_def split: option.splits)


subsection \<open>The loop over the fragments\<close>

lemma stream_loop_Inr:
  "stream_loop fp connection_id session_id user_input w frags ending acc = (w', Inr acc') \<Longrightarrow>
     ending = Finished \<and>
     acc' = acc @ filter (\<lambda>c. c \<noteq> [] \<and> strip c \<noteq> []) frags \<and>
     w' = w\<lparr>trace := trace w @
            map (\<lambda>c. Post connection_id (stream_event session_id user_input c ''in_progress'')
                       True)
              (filter (\<lambda>c. c \<noteq> [] \<and> strip c \<noteq> []) frags)\<rparr>"
proof (induction frags arbitrary: w acc)
  case Nil
  then show ?case by (cases ending) auto
next
  case (Cons c frags)
  show ?case
  proof (cases "c \<noteq> [] \<and> strip c \<noteq> []")
    case False
    then have "stream_loop fp connection_id session_id user_input w frags ending acc
               = (w', Inr acc')"
      using Cons.prems by auto
    from Cons.IH[OF this] show ?thesis using False by auto
  next
    case True
    obtain w1 r where p: "post_to_connection fp w connection_id
        (stream_event session_id user_input c ''in_progress'') = (w1, r)"
      by (cases "post_to_connection fp w connection_id
        (stream_event session_id user_input c ''in_progress'')") auto
    show ?thesis
    proof (cases r)
      case (Inl e)
      then show ?thesis using Cons.prems True p by simp
    next
      case (Inr u)
      then have "stream_loop fp connection_id session_id user_input w1 frags ending (acc @ [c])
                 = (w', Inr acc')"
        using Cons.prems True p by simp
      from Cons.IH[OF this] post_to_connection_Inr[OF p[unfolded Inr]]
      show ?thesis using True by simp
    qed
  qed
qed


subsection \<open>The body of the \<open>try\<close>\<close>

lemma stream_and_persist_Inr:
  assumes "stream_and_persist fp now w (frags, ending) user_input connection_id session_id
             user_id = (w', Inr text)"
  shows "ending = Finished \<and>
         text = concat (filter (\<lambda>c. c \<noteq> [] \<and> strip c \<noteq> []) frags) \<and>
         trace w' = trace w @
           [Post connection_id (stream_event session_id user_input [] ''start_of_message'') True]
           @ map (\<lambda>c. Post connection_id
                         (stream_event session_id user_input c ''in_progress'') True)
               (filter (\<lambda>c. c \<noteq> [] \<and> strip c \<noteq> []) frags)
           @ [Post connection_id (stream_event session_id user_input [] ''end_of_message'') True,
              Put (write_item (Chat_object (initialize_chat_agent now user_id text session_id)))
                True] \<and>
         table w' = filter (\<lambda>j. \<not> (PK j = session_id \<and> SK j = now)) (table w) @
           [write_item (Chat_object (initialize_chat_agent now user_id text session_id))]"
proof -
  let ?start = "stream_event session_id user_input [] ''start_of_message''"
  let ?stop = "stream_event session_id user_input [] ''end_of_message''"
  obtain w1 r1 where p1: "post_to_connection fp w connection_id ?start = (w1, r1)"
    by (cases "post_to_connection fp w connection_id ?start") auto
  obtain u1 where r1: "r1 = Inr u1"
    using assms p1 by (cases r1) (auto simp: stream_and_persist_def)
  obtain w2 r2 where p2:
    "stream_loop fp connection_id session_id user_input w1 frags ending [] = (w2, r2)"
    by (cases "stream_loop fp connection_id session_id user_input w1 frags ending []") auto
  obtain chunks where r2: "r2 = Inr chunks"
    using assms p1 r1 p2 by (cases r2) (auto simp: stream_and_persist_def)
  obtain w3 r3 where p3: "post_to_connection fp w2 connection_id ?stop = (w3, r3)"
    by (cases "post_to_connection fp w2 connection_id ?stop") auto
  obtain u3 where r3: "r3 = Inr u3"
    using assms p1 r1 p2 r2 p3 by (cases r3) (auto simp: stream_and_persist_def)
  let ?chat = "Chat_object (initialize_chat_agent now user_id (concat chunks) session_id)"
  obtain w4 r4 where p4: "write_object fp w3 ?chat = (w4, r4)"
    by (cases "write_object fp w3 ?chat") auto
  obtain u4 where r4: "r4 = Inr u4"
    using assms p1 r1 p2 r2 p3 r3 p4 by (cases r4) (auto simp: stream_and_persist_def Let_def)
  have res: "w' = w4" "text = concat chunks"
    using assms p1 r1 p2 r2 p3 r3 p4 r4 by (auto simp: stream_and_persist_def Let_def)
  note a1 = post_to_connection_Inr[OF p1[unfolded r1]]
  note a2 = stream_loop_Inr[OF p2[unfolded r2]]
  note a3 = post_to_connection_Inr[OF p3[unfolded r3]]
  note a4 = write_object_Inr[OF p4[unfolded r4]]
  have keys: "PK (write_item ?chat) = session_id" "SK (write_item ?chat) = now"
    by (simp_all add: initialize_chat_agent_def)
  have "trace w4 = trace w @ [Post connection_id ?start True]
           @ map (\<lambda>c. Post connection_id
                         (stream_event session_id user_input c ''in_progress'') True)
               (filter (\<lambda>c. c \<noteq> [] \<and> strip c \<noteq> []) frags)
           @ [Post connection_id ?stop True, Put (write_item ?chat) True]"
    using a1 a2 a3 a4 by simp
  moreover have "table w4 = filter (\<lambda>j. \<not> (PK j = session_id \<and> SK j = now)) (table w) @
           [write_item ?chat]"
    using a1 a2 a3 a4 keys by simp
  ultimately show ?thesis using a2 res by simp
qed


subsection \<open>Claims C3 and C8\<close>

text \<open>
  Claim C3, as stated, fails for fragments that consist of whitespace only: the coordinator
  sends and keeps a fragment only \<open>if chunk_text and chunk_text.strip()\<close>. Of the fragments
  \<open>Hi\<close>, one blank, \<open>there\<close> the blank is neither delivered nor accumulated, and the
  persisted text is \<open>Hithere\<close>.
\<close>

theorem blank_fragment_counterexample:
  "trace (fst (stream_to_client_and_persist (\<lambda>n. None) ''t1'' \<lparr>table = [], trace = []\<rparr>
      ([''Hi'', '' '', ''there''], Finished) ''q'' ''c1'' ''s1'' ''u1'')) =
     [Post ''c1'' (stream_event ''s1'' ''q'' [] ''start_of_message'') True,
      Post ''c1'' (stream_event ''s1'' ''q'' ''Hi'' ''in_progress'') True,
      Post ''c1'' (stream_event ''s1'' ''q'' ''there'' ''in_progress'') True,
      Post ''c1'' (stream_event ''s1'' ''q'' [] ''end_of_message'') True,
      Put (write_item (Chat_object (initialize_chat_agent ''t1'' ''u1'' ''Hithere'' ''s1'')))
        True] \<and>
   snd (stream_to_client_and_persist (\<lambda>n. None) ''t1'' \<lparr>table = [], trace = []\<rparr>
      ([''Hi'', '' '', ''there''], Finished) ''q'' ''c1'' ''s1'' ''u1'') = Inr ''Hithere''"
  by code_simp

text \<open>
  Claim C3, amended. For one handled turn (the call returns the final text), the coordinator
  first sends \<open>start_of_message\<close>, then for every fragment of the agent's stream that has a
  character other than whitespace, in stream order, one \<open>in_progress\<close> event carrying that
  fragment, then \<open>end_of_message\<close>; the concatenation of exactly these fragments is the
  returned text, and it is written to the store once, after \<open>end_of_message\<close>, as a chat
  turn with role \<open>assistant\<close>. Nothing else is sent or written.
\<close>

theorem turn_delivered_and_persisted:
  assumes "stream_to_client_and_persist fp now w (frags, ending) user_input connection_id
             session_id user_id = (w', Inr text)"
  shows "ending = Finished \<and>
         text = concat (filter (\<lambda>c. c \<noteq> [] \<and> strip c \<noteq> []) frags) \<and>
         trace w' = trace w @
           [Post connection_id (stream_event session_id user_input [] ''start_of_message'') True]
           @ map (\<lambda>c. Post connection_id
                         (stream_event session_id user_input c ''in_progress'') True)
               (filter (\<lambda>c. c \<noteq> [] \<and> strip c \<noteq> []) frags)
           @ [Post connection_id (stream_event session_id user_input [] ''end_of_message'') True,
              Put (write_item (Chat_object (initialize_chat_agent now user_id text session_id)))
                True] \<and>
         table w' = filter (\<lambda>j. \<not> (PK j = session_id \<and> SK j = now)) (table w) @
           [write_item (Chat_object (initialize_chat_agent now user_id text session_id))] \<and>
         it_role (write_item (Chat_object (initialize_chat_agent now user_id text session_id)))
           = Some ''assistant'' \<and>
         it_message (write_item (Chat_object (initialize_chat_agent now user_id text session_id)))
           = Some text"
proof -
  have "stream_and_persist fp now w (frags, ending) user_input connection_id session_id user_id
          = (w', Inr text)"
    using assms
    by (auto simp: stream_to_client_and_persist_def split: prod.splits sum.splits)
  from stream_and_persist_Inr[OF this] show ?thesis
    by (simp add: initialize_chat_agent_def)
qed

theorem turn_delivered_and_persisted_witness:
  "snd (stream_to_client_and_persist (\<lambda>n. None) ''t1'' \<lparr>table = [], trace = []\<rparr>
      ([''Hi'', [], '' there''], Finished) ''q'' ''c1'' ''s1'' ''u1'') = Inr ''Hi there'' \<and>
   trace (fst (stream_to_client_and_persist (\<lambda>n. None) ''t1'' \<lparr>table = [], trace = []\<rparr>
      ([''Hi'', [], '' there''], Finished) ''q'' ''c1'' ''s1'' ''u1'')) =
     [Post ''c1'' (stream_event ''s1'' ''q'' [] ''start_of_message'') True,
      Post ''c1'' (stream_event ''s1'' ''q'' ''Hi'' ''in_progress'') True,
      Post ''c1'' (stream_event ''s1'' ''q'' '' there'' ''in_progress'') True,
      Post ''c1'' (stream_event ''s1'' ''q'' [] ''end_of_message'') True,
      Put (write_item (Chat_object (initialize_chat_agent ''t1'' ''u1'' ''Hi there'' ''s1'')))
        True]"
proof -
  let ?run = "stream_to_client_and_persist (\<lambda>n. None) ''t1'' \<lparr>table = [], trace = []\<rparr>
      ([''Hi'', [], '' there''], Finished) ''q'' ''c1'' ''s1'' ''u1''"
  have h: "snd ?run = Inr ''Hi there''" by code_simp
  then have "?run = (fst ?run, Inr ''Hi there'')" by (metis prod.collapse)
  from turn_delivered_and_persisted[OF this]
  have "trace (fst ?run) = [] @
           [Post ''c1'' (stream_event ''s1'' ''q'' [] ''start_of_message'') True]
           @ map (\<lambda>c. Post ''c1'' (stream_event ''s1'' ''q'' c ''in_progress'') True)
               (filter (\<lambda>c. c \<noteq> [] \<and> strip c \<noteq> []) [''Hi'', [], '' there''])
           @ [Post ''c1'' (stream_event ''s1'' ''q'' [] ''end_of_message'') True,
              Put (write_item (Chat_object (initialize_chat_agent ''t1'' ''u1'' ''Hi there''
                ''s1''))) True]"
    by simp
  moreover have "filter (\<lambda>c. c \<noteq> [] \<and> strip c \<noteq> []) [''Hi'', [], '' there''] =
                 [''Hi'', '' there'']"
    by code_simp
  ultimately show ?thesis using h by simp
qed



section \<open>The claims about session resolution\<close>

lemma get_user_session_user:
  "get_user_session fp w user_id session_id = get_user_session fp w user_id' session_id"
  by (simp add: get_user_session_def)

lemma get_user_session_world:
  assumes "snd (get_user_session fp w user_id session_id) = Inr found"
  shows "fst (get_user_session fp w user_id session_id) =
           w\<lparr>trace := trace w @ [Query session_id True]\<rparr>"
  using assms
  by (auto simp: get_user_session_def query_def ddb_query_def Let_def
      split: option.splits prod.splits sum.splits)

lemma random_choices_length: "length (random_choices rnd population n) = n"
  by (simp add: random_choices_def)

lemma random_choices_set:
  assumes "population \<noteq> []"
  shows "set (random_choices rnd population n) \<subseteq> set population"
  using assms by (auto simp: random_choices_def)

lemma session_not_found:
  assumes "session_id = Some sid" and "sid \<noteq> []"
    and "snd (get_user_session fp w user_id sid) = Inr None"
  shows "snd (session_handling websocket_client fp rnd now w connection_id user_id session_id) =
           Inl \<lparr>statusCode = 404, body = [(''error'', ''Session not found'')]\<rparr> \<and>
         table (fst (session_handling websocket_client fp rnd now w connection_id user_id
                       session_id)) = table w \<and>
         trace (fst (session_handling websocket_client fp rnd now w connection_id user_id
                       session_id)) =
           trace w @ Query sid True #
             (if websocket_client \<and> connection_id \<noteq> []
              then [Post connection_id
                      [(''error'', ''Session not found''), (''connectionId'', connection_id)]
                      (fp (Suc (length (trace w))) = None)]
              else [])"
proof -
  obtain w1 where g: "get_user_session fp w user_id sid = (w1, Inr None)"
    using assms(3) by (cases "get_user_session fp w user_id sid") auto
  have w1: "w1 = w\<lparr>trace := trace w @ [Query sid True]\<rparr>"
    using get_user_session_world[OF assms(3)] g by simp
  show ?thesis
    using assms(1,2) g w1
    by (auto simp: session_handling_def push_to_client_def post_to_connection_def Let_def
        split: option.splits)
qed

lemma new_session_created:
  assumes "session_id = None \<or> session_id = Some []"
    and "fp (length (trace w)) = None"
  shows "snd (session_handling websocket_client fp rnd now w connection_id user_id session_id) =
           Inr (construct_session_id rnd user_id,
                initialize_user_session now user_id (construct_session_id rnd user_id) []
                  ''New Chat'') \<and>
         table (fst (session_handling websocket_client fp rnd now w connection_id user_id
                       session_id)) =
           filter (\<lambda>j. \<not> (PK j = construct_session_id rnd user_id \<and> SK j = now)) (table w) @
             [write_item (Session_object
                (initialize_user_session now user_id (construct_session_id rnd user_id) []
                   ''New Chat''))]"
  using assms
  by (auto simp: session_handling_def write_object_def put_item_def Let_def
      initialize_user_session_def)

text \<open>
  Claim C9, as stated, fails for a request that carries an empty \<open>session_id\<close>: the
  coordinator tests \<open>if session_id:\<close>, so the empty string counts as no session id. No
  lookup is made and nothing is rejected; a new session is created.
\<close>

theorem empty_session_id_counterexample:
  "snd (session_handling True (\<lambda>n. None) (\<lambda>i. 7 * i) ''2025-01-02 08:00:00'' alice_world
          ''c1'' ''bob'' (Some [])) =
     Inr (''bob-ahovCJQX'',
          initialize_user_session ''2025-01-02 08:00:00'' ''bob'' ''bob-ahovCJQX'' []
            ''New Chat'') \<and>
   trace (fst (session_handling True (\<lambda>n. None) (\<lambda>i. 7 * i) ''2025-01-02 08:00:00''
                 alice_world ''c1'' ''bob'' (Some []))) =
     [Put (write_item (Session_object
        (initialize_user_session ''2025-01-02 08:00:00'' ''bob'' ''bob-ahovCJQX'' []
           ''New Chat''))) True]"
  by code_simp

text \<open>
  Claim C9, amended. A request whose \<open>session_id\<close> is given and not empty, and whose lookup
  returns nothing, is answered with status 404 and the error \<open>Session not found\<close>; that
  error is pushed to the client when a channel is configured; the table is left as it was, the
  only other call being the query. A request without a \<open>session_id\<close>, or with an empty
  one, gets the id \<open>user_id\<close>, a hyphen and 8 characters drawn from the letters and digits,
  and, the write succeeding, a session with that id and \<open>message_count\<close> 0 is put into the
  table and handed on.
\<close>

theorem session_resolution:
  "(session_id = Some sid \<and> sid \<noteq> [] \<and>
    snd (get_user_session fp w user_id sid) = Inr None \<longrightarrow>
      snd (session_handling websocket_client fp rnd now w connection_id user_id session_id) =
        Inl \<lparr>statusCode = 404, body = [(''error'', ''Session not found'')]\<rparr> \<and>
      table (fst (session_handling websocket_client fp rnd now w connection_id user_id
                    session_id)) = table w \<and>
      trace (fst (session_handling websocket_client fp rnd now w connection_id user_id
                    session_id)) =
        trace w @ Query sid True #
          (if websocket_client \<and> connection_id \<noteq> []
           then [Post connection_id
                   [(''error'', ''Session not found''), (''connectionId'', connection_id)]
                   (fp (Suc (length (trace w))) = None)]
           else [])) \<and>
   (\<exists>random_part. construct_session_id rnd user_id = user_id @ ''-'' @ random_part \<and>
      length random_part = 8 \<and> set random_part \<subseteq> set (ascii_letters @ digits)) \<and>
   ((session_id = None \<or> session_id = Some []) \<and> fp (length (trace w)) = None \<longrightarrow>
      (\<exists>user_session.
         snd (session_handling websocket_client fp rnd now w connection_id user_id session_id) =
           Inr (construct_session_id rnd user_id, user_session) \<and>
         us_session_id user_session = construct_session_id rnd user_id \<and>
         us_user_id user_session = user_id \<and>
         message_count user_session = 0 \<and>
         table (fst (session_handling websocket_client fp rnd now w connection_id user_id
                       session_id)) =
           filter (\<lambda>j. \<not> (PK j = construct_session_id rnd user_id \<and> SK j = now)) (table w) @
             [write_item (Session_object user_session)] \<and>
         it_message_count (write_item (Session_object user_session)) = Some 0))"
proof -
  have a: "\<exists>random_part. construct_session_id rnd user_id = user_id @ ''-'' @ random_part \<and>
      length random_part = 8 \<and> set random_part \<subseteq> set (ascii_letters @ digits)"
  proof -
    have "ascii_letters @ digits \<noteq> []" by (simp add: digits_def)
    then have "set (random_choices rnd (ascii_letters @ digits) 8)
                 \<subseteq> set (ascii_letters @ digits)"
      by (rule random_choices_set)
    then show ?thesis
      by (simp add: construct_session_id_def random_choices_length)
  qed
  have b: "\<exists>user_session.
         snd (session_handling websocket_client fp rnd now w connection_id user_id session_id) =
           Inr (construct_session_id rnd user_id, user_session) \<and>
         us_session_id user_session = construct_session_id rnd user_id \<and>
         us_user_id user_session = user_id \<and>
         message_count user_session = 0 \<and>
         table (fst (session_handling websocket_client fp rnd now w connection_id user_id
                       session_id)) =
           filter (\<lambda>j. \<not> (PK j = construct_session_id rnd user_id \<and> SK j = now)) (table w) @
             [write_item (Session_object user_session)] \<and>
         it_message_count (write_item (Session_object user_session)) = Some 0"
    if "session_id = None \<or> session_id = Some []" "fp (length (trace w)) = None"
    using that
      new_session_created[of session_id fp w websocket_client rnd now connection_id user_id]
    by (simp add: initialize_user_session_def)
  show ?thesis using a b session_not_found by blast
qed

theorem session_resolution_witness:
  "snd (get_user_session (\<lambda>n. None) alice_world ''bob'' ''bob-00000000'') = Inr None \<and>
   snd (session_handling True (\<lambda>n. None) (\<lambda>i. 7 * i) ''2025-01-02 08:00:00'' alice_world
          ''c1'' ''bob'' (Some ''bob-00000000'')) =
     Inl \<lparr>statusCode = 404, body = [(''error'', ''Session not found'')]\<rparr> \<and>
   table (fst (session_handling True (\<lambda>n. None) (\<lambda>i. 7 * i) ''2025-01-02 08:00:00''
                 alice_world ''c1'' ''bob'' (Some ''bob-00000000''))) = table alice_world \<and>
   construct_session_id (\<lambda>i. 7 * i) ''bob'' = ''bob-ahovCJQX'' \<and>
   (\<exists>user_session.
      snd (session_handling True (\<lambda>n. None) (\<lambda>i. 7 * i) ''2025-01-02 08:00:00'' alice_world
             ''c1'' ''bob'' None) = Inr (''bob-ahovCJQX'', user_session) \<and>
      message_count user_session = 0)"
proof -
  have h: "snd (get_user_session (\<lambda>n. None) alice_world ''bob'' ''bob-00000000'') = Inr None"
    by code_simp
  have c: "construct_session_id (\<lambda>i. 7 * i) ''bob'' = ''bob-ahovCJQX''"
    by code_simp
  have t: "(\<lambda>n. None :: py_exception option) (length (trace alice_world)) = None" by simp
  note r = session_resolution[of "Some ''bob-00000000''" "''bob-00000000''" "\<lambda>n. None"
      alice_world "''bob''" True "\<lambda>i. 7 * i" "''2025-01-02 08:00:00''" "''c1''"]
  note n = session_resolution[of None "''x''" "\<lambda>n. None"
      alice_world "''bob''" True "\<lambda>i. 7 * i" "''2025-01-02 08:00:00''" "''c1''"]
  show ?thesis using r n h c by auto
qed

text \<open>
  Claim C10. \<open>get_user_session\<close> does not use its \<open>user_id\<close>: for any two user ids it makes
  the same query, by the session id alone, with the same result. So the session check of the
  coordinator lets a request with an existing session id pass whatever user id it carries.
\<close>

theorem session_lookup_ignores_user:
  "get_user_session fp w user_id session_id = get_user_session fp w user_id' session_id \<and>
   (session_id \<noteq> [] \<and>
    snd (get_user_session fp w user_id session_id) = Inr (Some user_session) \<longrightarrow>
      snd (session_handling websocket_client fp rnd now w connection_id user_id'
             (Some session_id)) = Inr (session_id, user_session))"
proof -
  have "snd (session_handling websocket_client fp rnd now w connection_id user_id'
               (Some session_id)) = Inr (session_id, user_session)"
    if "session_id \<noteq> []"
      and "snd (get_user_session fp w user_id session_id) = Inr (Some user_session)"
  proof -
    have "snd (get_user_session fp w user_id' session_id) = Inr (Some user_session)"
      using that(2) get_user_session_user[of fp w user_id session_id user_id'] by simp
    then obtain w1 where
      "get_user_session fp w user_id' session_id = (w1, Inr (Some user_session))"
      by (cases "get_user_session fp w user_id' session_id") auto
    then show ?thesis using that(1) by (simp add: session_handling_def)
  qed
  then show ?thesis using get_user_session_user by blast
qed

text \<open>The session of \<open>alice\<close> is found for \<open>alice\<close> and, by its id, for \<open>mallory\<close>.\<close>

theorem session_lookup_ignores_user_witness:
  "snd (get_user_session (\<lambda>n. None) alice_world ''alice'' ''alice-Ab3dE6gH'') =
     Inr (Some alice_session) \<and>
   snd (session_handling True (\<lambda>n. None) (\<lambda>i. i) ''2025-01-02 08:00:00'' alice_world ''c2''
          ''mallory'' (Some ''alice-Ab3dE6gH'')) = Inr (''alice-Ab3dE6gH'', alice_session)"
proof -
  have h: "snd (get_user_session (\<lambda>n. None) alice_world ''alice'' ''alice-Ab3dE6gH'') =
             Inr (Some alice_session)"
    by code_simp
  have "''alice-Ab3dE6gH'' \<noteq> []" by simp
  with session_lookup_ignores_user[of "\<lambda>n. None" alice_world "''alice''" "''alice-Ab3dE6gH''"
      "''mallory''" alice_session True "\<lambda>i. i" "''2025-01-02 08:00:00''" "''c2''"] h
  show ?thesis by blast
qed

end
